theory Spec2Isabelle
  imports Main "HOL-Library.Char_ord" "HOL-Library.List_Lexorder"
begin

section \<open>C library behaviour used by the mapper and the control\<close>

text \<open>
  A C string is modelled by the list of its bytes before the terminating NUL. The two
  control characters the protocol speaks about are the line feed and the carriage return.
\<close>

abbreviation NL :: char where "NL \<equiv> CHR 0x0A"
abbreviation CR :: char where "CR \<equiv> CHR 0x0D"

text \<open>
  \<open>strcmp\<close> compares byte by byte, the bytes read as unsigned values; a string that is a
  proper prefix of the other is the smaller one. The C standard fixes only the sign of
  the result, and the programs test only the sign, so the model returns -1, 0 or 1.
\<close>

fun strcmp :: "string \<Rightarrow> string \<Rightarrow> int" where
  "strcmp [] [] = 0"
| "strcmp [] (y # ys) = - 1"
| "strcmp (x # xs) [] = 1"
| "strcmp (x # xs) (y # ys) =
     (if x = y then strcmp xs ys
      else if (of_char x :: nat) < of_char y then - 1 else 1)"

text \<open>\<open>isdigit\<close> in the C locale.\<close>

definition isdigit :: "char \<Rightarrow> bool" where
  "isdigit c = (c \<in> set ''0123456789'')"

text \<open>
  \<open>strtok s delim\<close>: skip the leading delimiters; with nothing left the result is
  \<open>NULL\<close> (here \<open>None\<close>); otherwise the token runs up to the next delimiter, which is
  overwritten, and the scan position saved for the following call \<open>strtok(NULL, delim)\<close> is
  the text behind it. The result is the token paired with that saved text.
\<close>

definition strtok :: "string \<Rightarrow> string \<Rightarrow> (string \<times> string) option" where
  "strtok s delim =
     (let s' = dropWhile (\<lambda>c. c \<in> set delim) s in
      if s' = [] then None
      else Some (takeWhile (\<lambda>c. c \<notin> set delim) s',
                 drop 1 (dropWhile (\<lambda>c. c \<notin> set delim) s')))"

text \<open>
  What the C programs do outside the language's defined behaviour is a value of its own:
  a write behind the last slot of the registry array or in front of the message buffer,
  and a \<open>strcmp\<close> on a null pointer.
\<close>

datatype fault = OutOfBounds | NullPointer

text \<open>
  What a connection handler does that other threads or the peer can observe, in program
  order: a read from the connection (\<open>fgets\<close>), taking and releasing the shared semaphore,
  a call or loop that reads or changes the registry array, a formatted write to the
  connection (\<open>fprintf\<close>) with the text written, \<open>fflush\<close>, and \<open>fclose\<close>.
\<close>

datatype event = Read | TakeLock | ReleaseLock | RegistryOp | Write string | Flush | Close

text \<open>
  How an iteration of a handler's \<open>while (1)\<close> loop ends: it goes on with the next
  read, it leaves the loop, or it never ends because \<open>sem_wait\<close> does not return.
\<close>

datatype status = Continue | Break | Blocked

text \<open>
  \<open>fgets(buffer, bufferSize, stream)\<close> on the bytes still to come from the connection: at
  most \<open>bufferSize - 1\<close> bytes are taken, none behind the first newline; with no byte left the
  result is \<open>NULL\<close> (here \<open>None\<close>). The result is the text put into the buffer paired
  with the bytes that remain for the next call.
\<close>

fun fgets_take :: "nat \<Rightarrow> string \<Rightarrow> string \<times> string" where
  "fgets_take 0 stream = ([], stream)"
| "fgets_take (Suc n) [] = ([], [])"
| "fgets_take (Suc n) (c # cs) =
     (if c = NL then ([c], cs)
      else (case fgets_take n cs of (line, rest) \<Rightarrow> (c # line, rest)))"

definition fgets :: "nat \<Rightarrow> string \<Rightarrow> (string \<times> string) option" where
  "fgets bufferSize stream =
     (if stream = [] then None else Some (fgets_take (bufferSize - 1) stream))"

text \<open>The size of the messages, and of the buffer less one, in both programs.\<close>

definition MAX_CHARS :: nat where
  "MAX_CHARS = 79"

text \<open>
  The semaphore, by its value: \<open>init_lock\<close> is \<open>sem_init(lock, 0, 1)\<close>;
  \<open>take_lock\<close> is \<open>sem_wait\<close>, which takes one unit and does not return while there is
  none (\<open>None\<close>); \<open>release_lock\<close> is \<open>sem_post\<close>.
\<close>

definition init_lock :: nat where
  "init_lock = 1"

definition take_lock :: "nat \<Rightarrow> nat option" where
  "take_lock lock = (if lock = 0 then None else Some (lock - 1))"

definition release_lock :: "nat \<Rightarrow> nat" where
  "release_lock lock = lock + 1"

section \<open>Ordered insertion into the registry array\<close>

text \<open>
  The registry is a heap array of 1000 slots with a separate element count; the model is
  the list of the slots in use. \<open>store\<close> writes slot \<open>i\<close>; the slot just behind the
  slots in use becomes a slot in use.
\<close>

definition store :: "'a list \<Rightarrow> nat \<Rightarrow> 'a \<Rightarrow> 'a list" where
  "store arr i v = (if i < length arr then arr[i := v] else arr @ [v])"

text \<open>
  \<^verbatim>\<open>while (insertionIndex < *numPlanes && strcmp(plane, planes[insertionIndex]) >= 0)
      insertionIndex++;\<close>
  over the keys of the slots in use.
\<close>

function insertion_index :: "string \<Rightarrow> string list \<Rightarrow> nat \<Rightarrow> nat" where
  "insertion_index key keys insertionIndex =
     (if insertionIndex < length keys \<and> strcmp key (keys ! insertionIndex) \<ge> 0
      then insertion_index key keys (Suc insertionIndex)
      else insertionIndex)"
  by pat_completeness auto
termination
  by (relation "measure (\<lambda>(key, keys, i). length keys - i)") auto

declare insertion_index.simps [simp del]

text \<open>
  \<^verbatim>\<open>for (int i = *numPlanes - 1; i >= insertionIndex; i--) planes[i + 1] = planes[i];\<close>
\<close>

function shift_right :: "'a list \<Rightarrow> int \<Rightarrow> int \<Rightarrow> 'a list" where
  "shift_right arr i insertionIndex =
     (if i \<ge> insertionIndex
      then shift_right (store arr (nat (i + 1)) (arr ! nat i)) (i - 1) insertionIndex
      else arr)"
  by pat_completeness auto
termination
  by (relation "measure (\<lambda>(arr, i, idx). nat (i - idx + 1))") auto

declare shift_right.simps [simp del]

section \<open>The control (control2310)\<close>

definition maxPlanes :: nat where
  "maxPlanes = 1000"

text \<open>
  \<open>add_plane\<close>. With all \<open>maxPlanes\<close> slots in use, the shift (or, for an insertion at
  the end, the final store) writes slot \<open>maxPlanes\<close>, which the array does not have.
\<close>

definition add_plane :: "string \<Rightarrow> string list \<Rightarrow> fault + string list" where
  "add_plane plane planes =
     (let insertionIndex = insertion_index plane planes 0 in
      if length planes \<ge> maxPlanes then Inl OutOfBounds
      else Inr (store (shift_right planes (int (length planes) - 1) (int insertionIndex))
                  insertionIndex plane))"

text \<open>\<open>verify_message\<close>, on the text \<open>fgets\<close> left in the buffer.\<close>

definition verify_message :: "string \<Rightarrow> bool" where
  "verify_message string =
     (let len = length string in
      if len < 2 then False
      else if string ! (len - 1) \<noteq> NL then False
      else list_all (\<lambda>c. \<not> (c = NL \<or> c = CR \<or> c = CHR '':'')) (take (len - 1) string))"

text \<open>
  One iteration of the loop of the control's \<open>client_handler\<close>, after \<open>fgets\<close> has
  returned the text \<open>raw\<close>, on the state shared by the handler threads: the array of
  planes and the value of the semaphore. The result is the shared state afterwards, the
  events of the iteration, and how the iteration ends. The semaphore has no unit only
  after a handler has left its loop through the \<open>log\<close> branch, whose \<open>break\<close> stands in
  front of \<open>release_lock\<close>; no thread is then left to give the unit back, and
  \<open>take_lock\<close> does not return.
\<close>

definition control_step ::
  "string \<Rightarrow> string \<Rightarrow> string list \<times> nat
     \<Rightarrow> fault + ((string list \<times> nat) \<times> event list \<times> status)" where
  "control_step info raw state =
     (let planes = fst state; lock = snd state in
      if \<not> verify_message raw then Inr ((planes, lock), [], Continue)
      else
        let ident = butlast raw in
        (case take_lock lock of
           None \<Rightarrow> Inr ((planes, lock), [], Blocked)
         | Some taken \<Rightarrow>
             if strcmp ''log'' ident = 0
             then Inr ((planes, taken),
                       [TakeLock, RegistryOp] @ map (\<lambda>p. Write (p @ [NL])) planes
                         @ [Write (''.'' @ [NL]), Flush],
                       Break)
             else (case add_plane ident planes of
                     Inl f \<Rightarrow> Inl f
                   | Inr planes' \<Rightarrow>
                       Inr ((planes', release_lock taken),
                            [TakeLock, Write (info @ [NL]), Flush, RegistryOp, ReleaseLock],
                            Continue))))"

text \<open>
  The whole of the control's \<open>client_handler\<close> for one connection served with no other
  handler running in between: \<open>lines\<close> are the texts the successive successful calls of
  \<open>fgets\<close> return, after which \<open>fgets\<close> fails. Behind the loop both streams are
  closed and the handler returns (\<open>Break\<close>); a handler whose \<open>take_lock\<close> does not
  return closes nothing and reads nothing further (\<open>Blocked\<close>).
\<close>

fun control_client_handler ::
  "string \<Rightarrow> string list \<Rightarrow> string list \<times> nat
     \<Rightarrow> fault + ((string list \<times> nat) \<times> event list \<times> status)" where
  "control_client_handler info [] state = Inr (state, [Read, Close, Close], Break)"
| "control_client_handler info (raw # lines) state =
     (case control_step info raw state of
        Inl f \<Rightarrow> Inl f
      | Inr (state', evs, Break) \<Rightarrow> Inr (state', Read # evs @ [Close, Close], Break)
      | Inr (state', evs, Blocked) \<Rightarrow> Inr (state', Read # evs, Blocked)
      | Inr (state', evs, Continue) \<Rightarrow>
          (case control_client_handler info lines state' of
             Inl f \<Rightarrow> Inl f
           | Inr (state'', evs', st) \<Rightarrow> Inr (state'', Read # evs @ evs', st)))"

text \<open>
  \<open>accept_clients\<close>: \<open>accepts\<close> are the values the successive calls of \<open>accept\<close> return
  (a call with no value left blocks for ever); the result lists the descriptors for
  which a handler thread was created.
\<close>

function accept_loop :: "nat \<Rightarrow> nat \<Rightarrow> int list \<Rightarrow> int list" where
  "accept_loop i bound accepts =
     (if i < bound then
        (case accepts of
           [] \<Rightarrow> []
         | fd # rest \<Rightarrow>
             (if fd \<ge> 0 then fd # accept_loop (Suc i) bound rest
              else accept_loop (Suc i) bound rest))
      else [])"
  by pat_completeness auto
termination
  by (relation "measure (\<lambda>(i, bound, accepts). bound - i)") auto

declare accept_loop.simps [simp del]

definition accept_clients :: "nat \<Rightarrow> int list \<Rightarrow> int list" where
  "accept_clients bound accepts = accept_loop 0 bound accepts"

section \<open>The mapper (mapper2310)\<close>

record Airport =
  name :: string
  portNumber :: string

definition maxAirports :: nat where
  "maxAirports = 1000"

text \<open>The loop of \<open>get_airport_index\<close>, from index \<open>i\<close> on.\<close>

function get_airport_index_from :: "string \<Rightarrow> Airport list \<Rightarrow> nat \<Rightarrow> int" where
  "get_airport_index_from airportName airports i =
     (if i < length airports then
        (if strcmp airportName (name (airports ! i)) = 0 then int i
         else get_airport_index_from airportName airports (Suc i))
      else - 1)"
  by pat_completeness auto
termination
  by (relation "measure (\<lambda>(airportName, airports, i). length airports - i)") auto

declare get_airport_index_from.simps [simp del]

definition get_airport_index :: "string \<Rightarrow> Airport list \<Rightarrow> int" where
  "get_airport_index airportName airports = get_airport_index_from airportName airports 0"

text \<open>The mapper's \<open>is_integer\<close>: no character that is not a digit.\<close>

definition is_integer :: "string \<Rightarrow> bool" where
  "is_integer string = list_all isdigit string"

text \<open>
  The second half of \<open>add_airport\<close>: the new airport is put into its place among the
  slots in use.
\<close>

definition insert_airport :: "Airport \<Rightarrow> Airport list \<Rightarrow> fault + Airport list" where
  "insert_airport airport airports =
     (let insertionIndex = insertion_index (name airport) (map name airports) 0 in
      if length airports \<ge> maxAirports then Inl OutOfBounds
      else Inr (store (shift_right airports (int (length airports) - 1) (int insertionIndex))
                  insertionIndex airport))"

text \<open>
  \<open>add_airport\<close>. When the command holds no token, \<open>airportName\<close> is the null pointer:
  \<open>get_airport_index\<close> hands it to \<open>strcmp\<close> as soon as one airport is registered, and
  with none registered returns -1, after which the second \<open>strtok\<close> finds no token
  either.
\<close>

definition add_airport :: "string \<Rightarrow> Airport list \<Rightarrow> fault + Airport list" where
  "add_airport command airports =
     (case strtok command '':'' of
        None \<Rightarrow> (if airports = [] then Inr airports else Inl NullPointer)
      | Some (airportName, rest) \<Rightarrow>
          if get_airport_index airportName airports \<noteq> - 1 then Inr airports
          else
            (case strtok rest '':'' of
               None \<Rightarrow> Inr airports
             | Some (port, rest') \<Rightarrow>
                 if length port < 1 \<or> \<not> is_integer port then Inr airports
                 else insert_airport \<lparr>name = airportName, portNumber = port\<rparr> airports))"

text \<open>\<open>message[0]\<close> of a C string: the terminating NUL when the string is empty.\<close>

definition first_char :: "string \<Rightarrow> char" where
  "first_char message = (case message of [] \<Rightarrow> CHR 0x00 | c # cs \<Rightarrow> c)"

text \<open>\<open>handle_input\<close>: the registry afterwards and the events, in order.\<close>

definition handle_input :: "string \<Rightarrow> Airport list \<Rightarrow> fault + (Airport list \<times> event list)" where
  "handle_input message airports =
     (if first_char message = CHR ''?'' then
        (let index = get_airport_index (tl message) airports in
         Inr (airports,
              [RegistryOp,
               Write (if index = - 1 then '';'' @ [NL]
                      else portNumber (airports ! nat index) @ [NL]),
               Flush]))
      else if first_char message = CHR ''!'' then
        (case add_airport (tl message) airports of
           Inl f \<Rightarrow> Inl f
         | Inr airports' \<Rightarrow> Inr (airports', [RegistryOp]))
      else if strcmp message ''@'' = 0 then
        Inr (airports,
             RegistryOp # map (\<lambda>a. Write (name a @ '':'' @ portNumber a @ [NL])) airports
               @ [Flush])
      else Inr (airports, []))"

text \<open>
  One iteration of the loop of the mapper's \<open>client_handler\<close>, after \<open>fgets\<close> has
  returned the text \<open>raw\<close>. The last character is cut off whatever it is; on an empty
  text the NUL is written in front of the buffer.
\<close>

definition mapper_step :: "string \<Rightarrow> Airport list \<Rightarrow> fault + (Airport list \<times> event list)" where
  "mapper_step raw airports =
     (if raw = [] then Inl OutOfBounds
      else
        let message = butlast raw; len = length message in
        if (first_char message = CHR ''?'' \<or> first_char message = CHR ''!'') \<and> len < 2
        then Inr (airports, [])
        else (case handle_input message airports of
                Inl f \<Rightarrow> Inl f
              | Inr (airports', evs) \<Rightarrow> Inr (airports', [TakeLock] @ evs @ [ReleaseLock])))"

text \<open>
  The whole of the mapper's \<open>client_handler\<close> for one connection served with no other
  handler running in between; the loop ends only when \<open>fgets\<close> fails.
\<close>

fun mapper_client_handler ::
  "string list \<Rightarrow> Airport list \<Rightarrow> fault + (Airport list \<times> event list)" where
  "mapper_client_handler [] airports = Inr (airports, [Read, Close, Close])"
| "mapper_client_handler (raw # lines) airports =
     (case mapper_step raw airports of
        Inl f \<Rightarrow> Inl f
      | Inr (airports', evs) \<Rightarrow>
          (case mapper_client_handler lines airports' of
             Inl f \<Rightarrow> Inl f
           | Inr (airports'', evs') \<Rightarrow> Inr (airports'', Read # evs @ evs')))"

text \<open>The accept loop of the mapper's \<open>main\<close>, bounded by \<open>maxAirports\<close>.\<close>

definition mapper_accept :: "int list \<Rightarrow> int list" where
  "mapper_accept accepts = accept_loop 0 maxAirports accepts"

section \<open>Observations on event sequences\<close>

text \<open>The bytes written to the connection.\<close>

fun response :: "event list \<Rightarrow> string" where
  "response [] = []"
| "response (Write s # evs) = s @ response evs"
| "response (e # evs) = response evs"

text \<open>
  \<open>holds held evs\<close>: whether the handler holds the semaphore after the events, having
  held it or not before them.
\<close>

fun holds :: "bool \<Rightarrow> event list \<Rightarrow> bool" where
  "holds held [] = held"
| "holds held (TakeLock # evs) = holds True evs"
| "holds held (ReleaseLock # evs) = holds False evs"
| "holds held (e # evs) = holds held evs"

text \<open>No event satisfying \<open>P\<close> happens while the handler holds the semaphore.\<close>

fun none_while_locked :: "(event \<Rightarrow> bool) \<Rightarrow> bool \<Rightarrow> event list \<Rightarrow> bool" where
  "none_while_locked P held [] = True"
| "none_while_locked P held (TakeLock # evs) = none_while_locked P True evs"
| "none_while_locked P held (ReleaseLock # evs) = none_while_locked P False evs"
| "none_while_locked P held (e # evs) = ((held \<longrightarrow> \<not> P e) \<and> none_while_locked P held evs)"

fun is_Write :: "event \<Rightarrow> bool" where
  "is_Write (Write s) = True"
| "is_Write e = False"

text \<open>Every event satisfying \<open>P\<close> happens while the handler holds the semaphore.\<close>

fun all_while_locked :: "(event \<Rightarrow> bool) \<Rightarrow> bool \<Rightarrow> event list \<Rightarrow> bool" where
  "all_while_locked P held [] = True"
| "all_while_locked P held (TakeLock # evs) = all_while_locked P True evs"
| "all_while_locked P held (ReleaseLock # evs) = all_while_locked P False evs"
| "all_while_locked P held (e # evs) = ((P e \<longrightarrow> held) \<and> all_while_locked P held evs)"

text \<open>The events that use the registry or write to the connection.\<close>

definition registry_or_output :: "event \<Rightarrow> bool" where
  "registry_or_output e = (e = RegistryOp \<or> is_Write e \<or> e = Flush)"

text \<open>
  A critical section: the semaphore is taken first and released last, and in between
  there is no further semaphore operation, no read from the connection, no close, and at
  most one registry operation.
\<close>

definition critical_section :: "event list \<Rightarrow> bool" where
  "critical_section evs =
     (case evs of
        TakeLock # rest \<Rightarrow>
          rest \<noteq> [] \<and> last rest = ReleaseLock \<and>
          (\<forall>e \<in> set (butlast rest). e \<noteq> TakeLock \<and> e \<noteq> ReleaseLock \<and> e \<noteq> Read \<and> e \<noteq> Close) \<and>
          length (filter (\<lambda>e. e = RegistryOp) (butlast rest)) \<le> 1
      | _ \<Rightarrow> False)"

text \<open>The events \<open>pre\<close> followed by a run of the handler.\<close>

definition after_events ::
  "event list \<Rightarrow> fault + ('s \<times> event list) \<Rightarrow> fault + ('s \<times> event list)" where
  "after_events pre r = (case r of Inl f \<Rightarrow> Inl f | Inr (s, evs) \<Rightarrow> Inr (s, pre @ evs))"


section \<open>Reachable registries\<close>

text \<open>
  The registry is changed only between \<open>take_lock\<close> and \<open>release_lock\<close>, so whatever
  the interleaving of the handler threads, it goes through the states that a sequence of
  loop iterations, each on some received text, produces from the empty array. The
  mapper's handler releases the semaphore in every iteration that took it, so that each
  iteration finds it free; the state of the control includes the value of the semaphore.
\<close>

inductive mapper_reachable :: "Airport list \<Rightarrow> bool" where
  mapper_initial: "mapper_reachable []"
| mapper_iteration:
    "mapper_reachable airports \<Longrightarrow> mapper_step raw airports = Inr (airports', evs)
       \<Longrightarrow> mapper_reachable airports'"

inductive control_reachable :: "string list \<times> nat \<Rightarrow> bool" where
  control_initial: "control_reachable ([], init_lock)"
| control_iteration:
    "control_reachable state \<Longrightarrow> control_step info raw state = Inr (state', evs, st)
       \<Longrightarrow> control_reachable state'"

section \<open>Specification-side notions\<close>

text \<open>
  Keys are compared as byte strings: the order \<open>\<le>\<close> on \<open>string\<close> is the lexicographic
  order over the order of the byte values, which is the order \<open>strcmp\<close> decides.

  \<open>inserted_in_order key x arr arr'\<close>: \<open>arr'\<close> is \<open>arr\<close> with \<open>x\<close> put in at a
  position behind every entry whose key is at most the key of \<open>x\<close> and in front of every
  entry whose key is greater.
\<close>

definition inserted_in_order :: "('a \<Rightarrow> string) \<Rightarrow> 'a \<Rightarrow> 'a list \<Rightarrow> 'a list \<Rightarrow> bool" where
  "inserted_in_order key x arr arr' =
     (\<exists>idx \<in> set [0 ..< Suc (length arr)].
        arr' = take idx arr @ x # drop idx arr \<and>
        (\<forall>e \<in> set (take idx arr). key e \<le> key x) \<and>
        (\<forall>e \<in> set (drop idx arr). key x < key e))"

text \<open>
  The fields of a text between its colons, and its tokens: the fields that are not empty.
\<close>

fun fields :: "string \<Rightarrow> string list" where
  "fields [] = [[]]"
| "fields (c # cs) =
     (if c = CHR '':'' then [] # fields cs
      else (case fields cs of [] \<Rightarrow> [[c]] | f # fs \<Rightarrow> (c # f) # fs))"

definition tokens :: "string \<Rightarrow> string list" where
  "tokens s = filter (\<lambda>t. t \<noteq> []) (fields s)"

text \<open>
  The specification's port-number validity: a non-empty sequence of ASCII digits whose
  integer value lies in [1, 65535].
\<close>

definition decimal_value :: "string \<Rightarrow> nat" where
  "decimal_value digits = foldl (\<lambda>n c. 10 * n + (of_char c - 48)) 0 digits"

definition spec_port_valid :: "string \<Rightarrow> bool" where
  "spec_port_valid port =
     (port \<noteq> [] \<and> list_all isdigit port \<and> 1 \<le> decimal_value port \<and> decimal_value port \<le> 65535)"

text \<open>
  The specification's condition on the payload of a registration line: a single colon
  separates a non-empty id from a valid port.
\<close>

definition spec_registration_wellformed :: "string \<Rightarrow> bool" where
  "spec_registration_wellformed payload =
     (let ident = takeWhile (\<lambda>c. c \<noteq> CHR '':'') payload;
          rest = dropWhile (\<lambda>c. c \<noteq> CHR '':'') payload
      in ident \<noteq> [] \<and> rest \<noteq> [] \<and> CHR '':'' \<notin> set (tl rest) \<and> spec_port_valid (tl rest))"

text \<open>
  The specification's framing rules, on a received text: it violates them when it has
  no newline terminator, when its payload, the text in front of the terminator, is
  empty, or when the payload holds a carriage return, a newline or a colon.
\<close>

definition spec_framing_violation :: "string \<Rightarrow> bool" where
  "spec_framing_violation received =
     (received = [] \<or> last received \<noteq> NL \<or> butlast received = [] \<or>
      list_ex (\<lambda>c. c = CR \<or> c = NL \<or> c = CHR '':'') (butlast received))"

section \<open>Basic facts\<close>

lemma strcmp_eq_0_iff: "strcmp a b = 0 \<longleftrightarrow> a = b"
  by (induction a b rule: strcmp.induct) auto

lemma strcmp_le_0_iff: "strcmp a b \<le> 0 \<longleftrightarrow> a \<le> b"
  by (induction a b rule: strcmp.induct) (auto simp flip: less_char_def)

lemma strcmp_ge_0_iff: "strcmp a b \<ge> 0 \<longleftrightarrow> b \<le> a"
  by (induction a b rule: strcmp.induct) (auto simp flip: less_char_def)

subsection \<open>The insertion loops\<close>

lemma store_mid: "store (xs @ y # ys) (length xs) v = xs @ v # ys"
  by (simp add: store_def)

lemma store_end: "store xs (length xs) v = xs @ [v]"
  by (simp add: store_def)

lemma store_shift_state:
  assumes "k < length arr"
  shows "store (take (Suc (Suc k)) arr @ drop (Suc k) arr) (Suc k) (arr ! k)
           = take (Suc k) arr @ drop k arr"
proof (cases "Suc k < length arr")
  case True
  then have t: "take (Suc (Suc k)) arr @ drop (Suc k) arr
                  = take (Suc k) arr @ arr ! Suc k # drop (Suc k) arr"
    by (simp add: take_Suc_conv_app_nth)
  have l: "length (take (Suc k) arr) = Suc k" using True by simp
  have "store (take (Suc k) arr @ arr ! Suc k # drop (Suc k) arr) (Suc k) (arr ! k)
          = take (Suc k) arr @ arr ! k # drop (Suc k) arr"
    using store_mid [of "take (Suc k) arr" "arr ! Suc k" "drop (Suc k) arr" "arr ! k"]
    by (simp only: l)
  also have "\<dots> = take (Suc k) arr @ drop k arr"
    using assms by (simp add: Cons_nth_drop_Suc)
  finally show ?thesis by (simp only: t)
next
  case False
  with assms have e: "Suc k = length arr" by simp
  then have "store (take (Suc (Suc k)) arr @ drop (Suc k) arr) (Suc k) (arr ! k) = arr @ [arr ! k]"
    using store_end [of arr "arr ! k"] by simp
  also have "\<dots> = take (Suc k) arr @ drop k arr"
    using e assms by (simp flip: Cons_nth_drop_Suc)
  finally show ?thesis .
qed

lemma shift_right_state:
  "idx + d \<le> length arr \<Longrightarrow>
   shift_right (take (Suc (idx + d)) arr @ drop (idx + d) arr) (int (idx + d) - 1) (int idx)
     = take (Suc idx) arr @ drop idx arr"
proof (induction d)
  case 0
  show ?case by (subst shift_right.simps) simp
next
  case (Suc d)
  let ?k = "idx + d"
  have k: "?k < length arr" using Suc.prems by simp
  have nth: "(take (Suc (Suc ?k)) arr @ drop (Suc ?k) arr) ! ?k = arr ! ?k"
    using k by (simp add: nth_append)
  have "shift_right (take (Suc (idx + Suc d)) arr @ drop (idx + Suc d) arr)
          (int (idx + Suc d) - 1) (int idx)
        = shift_right (store (take (Suc (Suc ?k)) arr @ drop (Suc ?k) arr) (Suc ?k) (arr ! ?k))
            (int ?k - 1) (int idx)"
    by (subst shift_right.simps) (simp add: nth nat_add_distrib)
  also have "\<dots> = shift_right (take (Suc ?k) arr @ drop ?k arr) (int ?k - 1) (int idx)"
    using k by (simp only: store_shift_state)
  also have "\<dots> = take (Suc idx) arr @ drop idx arr"
    using Suc.IH k by simp
  finally show ?case .
qed

lemma shift_right_store:
  assumes "idx \<le> length arr"
  shows "store (shift_right arr (int (length arr) - 1) (int idx)) idx x
           = take idx arr @ x # drop idx arr"
proof -
  obtain d where d: "length arr = idx + d" using assms by (metis le_Suc_ex)
  have "shift_right arr (int (length arr) - 1) (int idx) = take (Suc idx) arr @ drop idx arr"
    using shift_right_state [of idx d arr] d by simp
  moreover have "store (take (Suc idx) arr @ drop idx arr) idx x = take idx arr @ x # drop idx arr"
  proof (cases "idx < length arr")
    case True
    then have l: "length (take idx arr) = idx" by simp
    have "take (Suc idx) arr @ drop idx arr = take idx arr @ arr ! idx # drop idx arr"
      using True by (simp add: take_Suc_conv_app_nth)
    then show ?thesis
      using store_mid [of "take idx arr" "arr ! idx" "drop idx arr" x] by (simp only: l)
  next
    case False
    then show ?thesis using assms store_end [of arr x] by simp
  qed
  ultimately show ?thesis by simp
qed

lemma insertion_index_takeWhile:
  "i \<le> length keys \<Longrightarrow>
   insertion_index key keys i = i + length (takeWhile (\<lambda>k. k \<le> key) (drop i keys))"
proof (induction key keys i rule: insertion_index.induct)
  case (1 key keys i)
  show ?case
  proof (cases "i < length keys \<and> strcmp key (keys ! i) \<ge> 0")
    case True
    then have d: "drop i keys = keys ! i # drop (Suc i) keys"
      by (simp add: Cons_nth_drop_Suc)
    from True have "insertion_index key keys i = insertion_index key keys (Suc i)"
      by (subst insertion_index.simps) simp
    also have "\<dots> = Suc i + length (takeWhile (\<lambda>k. k \<le> key) (drop (Suc i) keys))"
      using "1.IH" True by simp
    finally show ?thesis using True by (simp add: d strcmp_ge_0_iff)
  next
    case False
    then have "insertion_index key keys i = i"
      by (subst insertion_index.simps) auto
    moreover have "takeWhile (\<lambda>k. k \<le> key) (drop i keys) = []"
    proof (cases "i < length keys")
      case True
      with False have "\<not> keys ! i \<le> key" by (simp add: strcmp_ge_0_iff)
      then show ?thesis using True by (simp flip: Cons_nth_drop_Suc)
    next
      case False
      then show ?thesis by simp
    qed
    ultimately show ?thesis by simp
  qed
qed

lemma add_plane_closed_form:
  "length planes < maxPlanes \<Longrightarrow>
   add_plane plane planes =
     Inr (takeWhile (\<lambda>p. p \<le> plane) planes @ plane # dropWhile (\<lambda>p. p \<le> plane) planes)"
proof -
  assume l: "length planes < maxPlanes"
  let ?idx = "length (takeWhile (\<lambda>p. p \<le> plane) planes)"
  have i: "insertion_index plane planes 0 = ?idx"
    using insertion_index_takeWhile [of 0 planes plane] by simp
  have le: "?idx \<le> length planes" by (rule length_takeWhile_le)
  have "store (shift_right planes (int (length planes) - 1) (int ?idx)) ?idx plane
          = take ?idx planes @ plane # drop ?idx planes"
    using le by (rule shift_right_store)
  also have "\<dots> = takeWhile (\<lambda>p. p \<le> plane) planes @ plane # dropWhile (\<lambda>p. p \<le> plane) planes"
    by (simp flip: takeWhile_eq_take dropWhile_eq_drop)
  finally show ?thesis using l by (simp add: add_plane_def i)
qed

lemma insert_airport_closed_form:
  "length airports < maxAirports \<Longrightarrow>
   insert_airport a airports =
     Inr (takeWhile (\<lambda>b. name b \<le> name a) airports @ a # dropWhile (\<lambda>b. name b \<le> name a) airports)"
proof -
  assume l: "length airports < maxAirports"
  let ?idx = "length (takeWhile (\<lambda>b. name b \<le> name a) airports)"
  have "insertion_index (name a) (map name airports) 0
          = length (takeWhile (\<lambda>k. k \<le> name a) (map name airports))"
    using insertion_index_takeWhile [of 0 "map name airports" "name a"] by simp
  then have i: "insertion_index (name a) (map name airports) 0 = ?idx"
    by (simp add: takeWhile_map comp_def)
  have le: "?idx \<le> length airports" by (rule length_takeWhile_le)
  have "store (shift_right airports (int (length airports) - 1) (int ?idx)) ?idx a
          = take ?idx airports @ a # drop ?idx airports"
    using le by (rule shift_right_store)
  also have "\<dots> = takeWhile (\<lambda>b. name b \<le> name a) airports @ a # dropWhile (\<lambda>b. name b \<le> name a) airports"
    by (simp flip: takeWhile_eq_take dropWhile_eq_drop)
  finally show ?thesis using l by (simp add: insert_airport_def i)
qed

lemma length_insert_position:
  "length (takeWhile P xs @ a # dropWhile P xs) = Suc (length xs)"
proof -
  have "length (takeWhile P xs) + length (dropWhile P xs) = length xs"
    by (metis length_append takeWhile_dropWhile_id)
  then show ?thesis by simp
qed

lemma sorted_dropWhile_greater:
  fixes k :: "'a \<Rightarrow> string"
  assumes "sorted (map k xs)" "e \<in> set (dropWhile (\<lambda>b. k b \<le> v) xs)"
  shows "v < k e"
  using assms
proof (induction xs)
  case Nil
  then show ?case by simp
next
  case (Cons x xs)
  show ?case
  proof (cases "k x \<le> v")
    case True
    with Cons show ?thesis by simp
  next
    case False
    then have "v < k x" by simp
    moreover have "k x \<le> k e" using Cons.prems False by auto
    ultimately show ?thesis by simp
  qed
qed

lemma sorted_insert_position:
  fixes k :: "'a \<Rightarrow> string"
  assumes "sorted (map k xs)"
  shows "sorted (map k (takeWhile (\<lambda>b. k b \<le> k a) xs @ a # dropWhile (\<lambda>b. k b \<le> k a) xs))"
proof -
  let ?t = "takeWhile (\<lambda>b. k b \<le> k a) xs" and ?d = "dropWhile (\<lambda>b. k b \<le> k a) xs"
  have "sorted (map k (?t @ ?d))" using assms by simp
  then have s: "sorted (map k ?t @ map k ?d)" by (simp only: map_append)
  have st: "sorted (map k ?t)" and sd: "sorted (map k ?d)"
    using s by (simp_all only: sorted_append)
  have t: "\<And>e. e \<in> set ?t \<Longrightarrow> k e \<le> k a" by (auto dest: set_takeWhileD)
  have d: "\<And>e. e \<in> set ?d \<Longrightarrow> k a < k e"
    using assms by (rule sorted_dropWhile_greater)
  have sd': "sorted (k a # map k ?d)"
    using sd d by (auto simp: less_imp_le)
  have cross: "\<And>x y. x \<in> set (map k ?t) \<Longrightarrow> y \<in> set (k a # map k ?d) \<Longrightarrow> x \<le> y"
  proof -
    fix x y
    assume x: "x \<in> set (map k ?t)" and y: "y \<in> set (k a # map k ?d)"
    from x obtain e where e: "e \<in> set ?t" "x = k e" by auto
    have xa: "x \<le> k a" using t e by simp
    from y have "k a \<le> y" using d by (auto simp: less_imp_le)
    with xa show "x \<le> y" by simp
  qed
  have "sorted (map k ?t @ (k a # map k ?d))"
    unfolding sorted_append using st sd' cross by blast
  then show ?thesis by simp
qed

lemma inserted_in_order_takeWhile:
  fixes k :: "'a \<Rightarrow> string"
  assumes "sorted (map k xs)"
  shows "inserted_in_order k a xs (takeWhile (\<lambda>b. k b \<le> k a) xs @ a # dropWhile (\<lambda>b. k b \<le> k a) xs)"
proof -
  let ?idx = "length (takeWhile (\<lambda>b. k b \<le> k a) xs)"
  have t: "take ?idx xs = takeWhile (\<lambda>b. k b \<le> k a) xs" by (simp flip: takeWhile_eq_take)
  have d: "drop ?idx xs = dropWhile (\<lambda>b. k b \<le> k a) xs" by (simp flip: dropWhile_eq_drop)
  have i: "?idx \<in> set [0 ..< Suc (length xs)]"
    using length_takeWhile_le [of "\<lambda>b. k b \<le> k a" xs] by auto
  have e: "takeWhile (\<lambda>b. k b \<le> k a) xs @ a # dropWhile (\<lambda>b. k b \<le> k a) xs
             = take ?idx xs @ a # drop ?idx xs"
    by (simp only: t d)
  have p: "\<forall>e \<in> set (take ?idx xs). k e \<le> k a"
    unfolding t by (auto dest: set_takeWhileD)
  have q: "\<forall>e \<in> set (drop ?idx xs). k a < k e"
    unfolding d using assms by (auto intro: sorted_dropWhile_greater)
  show ?thesis
    unfolding inserted_in_order_def
  proof (rule bexI [where x = ?idx])
    show "takeWhile (\<lambda>b. k b \<le> k a) xs @ a # dropWhile (\<lambda>b. k b \<le> k a) xs
            = take ?idx xs @ a # drop ?idx xs \<and>
          (\<forall>e \<in> set (take ?idx xs). k e \<le> k a) \<and>
          (\<forall>e \<in> set (drop ?idx xs). k a < k e)"
      using e p q by (intro conjI)
    show "?idx \<in> set [0 ..< Suc (length xs)]" by (rule i)
  qed
qed

subsection \<open>Looking an airport up\<close>

lemma get_airport_index_from_eq:
  "i \<le> length airports \<Longrightarrow>
   get_airport_index_from airportName airports i =
     (if airportName \<in> name ` set (drop i airports)
      then int (i + length (takeWhile (\<lambda>a. name a \<noteq> airportName) (drop i airports)))
      else - 1)"
proof (induction airportName airports i rule: get_airport_index_from.induct)
  case (1 airportName airports i)
  show ?case
  proof (cases "i < length airports")
    case False
    then show ?thesis by (subst get_airport_index_from.simps) simp
  next
    case True
    then have d: "drop i airports = airports ! i # drop (Suc i) airports"
      by (simp add: Cons_nth_drop_Suc)
    show ?thesis
    proof (cases "strcmp airportName (name (airports ! i)) = 0")
      case eq: True
      then have "get_airport_index_from airportName airports i = int i"
        using True by (subst get_airport_index_from.simps) simp
      moreover have "name (airports ! i) = airportName" using eq by (simp add: strcmp_eq_0_iff)
      ultimately show ?thesis by (simp add: d)
    next
      case ne: False
      then have "get_airport_index_from airportName airports i
                   = get_airport_index_from airportName airports (Suc i)"
        using True by (subst get_airport_index_from.simps) simp
      moreover have "name (airports ! i) \<noteq> airportName" using ne by (simp add: strcmp_eq_0_iff)
      ultimately show ?thesis using "1.IH" True ne by (simp add: d)
    qed
  qed
qed

lemma get_airport_index_eq:
  "get_airport_index airportName airports =
     (if airportName \<in> name ` set airports
      then int (length (takeWhile (\<lambda>a. name a \<noteq> airportName) airports))
      else - 1)"
  using get_airport_index_from_eq [of 0 airports airportName]
  by (simp add: get_airport_index_def)

lemma get_airport_index_absent:
  "get_airport_index airportName airports = - 1 \<longleftrightarrow> airportName \<notin> name ` set airports"
  by (simp add: get_airport_index_eq)

lemma find_takeWhile:
  "\<exists>x \<in> set xs. P x \<Longrightarrow> List.find P xs = Some (xs ! length (takeWhile (\<lambda>x. \<not> P x) xs))"
  by (induction xs) auto

lemma find_absent: "\<not> (\<exists>x \<in> set xs. P x) \<Longrightarrow> List.find P xs = None"
  by (induction xs) auto

lemma lookup_write:
  "(if get_airport_index ident airports = - 1 then '';'' @ [NL]
    else portNumber (airports ! nat (get_airport_index ident airports)) @ [NL])
   = (case List.find (\<lambda>a. name a = ident) airports of
        None \<Rightarrow> '';'' @ [NL] | Some a \<Rightarrow> portNumber a @ [NL])"
proof (cases "ident \<in> name ` set airports")
  case True
  then have "\<exists>a \<in> set airports. name a = ident" by auto
  then have "List.find (\<lambda>a. name a = ident) airports
               = Some (airports ! length (takeWhile (\<lambda>a. name a \<noteq> ident) airports))"
    by (rule find_takeWhile)
  then show ?thesis using True by (simp add: get_airport_index_eq)
next
  case False
  then have "\<not> (\<exists>a \<in> set airports. name a = ident)" by auto
  then have "List.find (\<lambda>a. name a = ident) airports = None" by (rule find_absent)
  then show ?thesis using False by (simp add: get_airport_index_eq)
qed

subsection \<open>Tokens\<close>

lemma fields_not_Nil: "fields s \<noteq> []"
  by (induction s) (auto split: list.splits)

lemma fields_split:
  "fields s = takeWhile (\<lambda>c. c \<noteq> CHR '':'') s #
     (case dropWhile (\<lambda>c. c \<noteq> CHR '':'') s of [] \<Rightarrow> [] | c # r \<Rightarrow> fields r)"
  by (induction s) (auto split: list.splits simp: fields_not_Nil)

lemma tokens_skip_colons: "tokens (dropWhile (\<lambda>c. c = CHR '':'') s) = tokens s"
  by (induction s) (auto simp: tokens_def)

lemma tokens_Nil: "tokens [] = []"
  by (simp add: tokens_def)

lemma tokens_split:
  "tokens s =
     (if takeWhile (\<lambda>c. c \<noteq> CHR '':'') s = [] then [] else [takeWhile (\<lambda>c. c \<noteq> CHR '':'') s])
     @ tokens (drop 1 (dropWhile (\<lambda>c. c \<noteq> CHR '':'') s))"
proof -
  have "fields s = takeWhile (\<lambda>c. c \<noteq> CHR '':'') s #
     (case dropWhile (\<lambda>c. c \<noteq> CHR '':'') s of [] \<Rightarrow> [] | c # r \<Rightarrow> fields r)"
    by (rule fields_split)
  then have "tokens s = filter (\<lambda>t. t \<noteq> []) (takeWhile (\<lambda>c. c \<noteq> CHR '':'') s #
     (case dropWhile (\<lambda>c. c \<noteq> CHR '':'') s of [] \<Rightarrow> [] | c # r \<Rightarrow> fields r))"
    by (simp only: tokens_def)
  moreover have "filter (\<lambda>t. t \<noteq> [])
       (case dropWhile (\<lambda>c. c \<noteq> CHR '':'') s of [] \<Rightarrow> [] | c # r \<Rightarrow> fields r)
     = tokens (drop 1 (dropWhile (\<lambda>c. c \<noteq> CHR '':'') s))"
  proof (cases "dropWhile (\<lambda>c. c \<noteq> CHR '':'') s")
    case Nil
    show ?thesis unfolding Nil by (simp add: tokens_def)
  next
    case (Cons c r)
    show ?thesis unfolding Cons by (simp add: tokens_def)
  qed
  ultimately show ?thesis by simp
qed

lemma tokens_after_colons:
  assumes "dropWhile (\<lambda>c. c = CHR '':'') s \<noteq> []"
  shows "tokens s = takeWhile (\<lambda>c. c \<noteq> CHR '':'') (dropWhile (\<lambda>c. c = CHR '':'') s)
           # tokens (drop 1 (dropWhile (\<lambda>c. c \<noteq> CHR '':'') (dropWhile (\<lambda>c. c = CHR '':'') s)))"
proof -
  let ?s' = "dropWhile (\<lambda>c. c = CHR '':'') s"
  have "hd ?s' \<noteq> CHR '':''" using assms hd_dropWhile [of "\<lambda>c. c = CHR '':''" s] by simp
  then have "takeWhile (\<lambda>c. c \<noteq> CHR '':'') ?s' \<noteq> []"
    using assms by (cases ?s') auto
  then have "tokens ?s' = takeWhile (\<lambda>c. c \<noteq> CHR '':'') ?s'
               # tokens (drop 1 (dropWhile (\<lambda>c. c \<noteq> CHR '':'') ?s'))"
    using tokens_split [of ?s'] by simp
  then show ?thesis by (simp only: tokens_skip_colons)
qed

lemma tokens_only_colons:
  assumes "dropWhile (\<lambda>c. c = CHR '':'') s = []"
  shows "tokens s = []"
proof -
  have "tokens s = tokens (dropWhile (\<lambda>c. c = CHR '':'') s)" by (simp only: tokens_skip_colons)
  also have "\<dots> = []" by (simp only: assms tokens_Nil)
  finally show ?thesis .
qed

lemma strtok_tokens:
  "strtok s '':'' = (case tokens s of [] \<Rightarrow> None
                     | t # ts \<Rightarrow> Some (t, drop 1 (dropWhile (\<lambda>c. c \<noteq> CHR '':'') (dropWhile (\<lambda>c. c = CHR '':'') s))))"
proof (cases "dropWhile (\<lambda>c. c = CHR '':'') s = []")
  case True
  then have "tokens s = []" by (rule tokens_only_colons)
  moreover have "strtok s '':'' = None" using True by (simp add: strtok_def Let_def)
  ultimately show ?thesis by simp
next
  case False
  then have "tokens s = takeWhile (\<lambda>c. c \<noteq> CHR '':'') (dropWhile (\<lambda>c. c = CHR '':'') s)
           # tokens (drop 1 (dropWhile (\<lambda>c. c \<noteq> CHR '':'') (dropWhile (\<lambda>c. c = CHR '':'') s)))"
    by (rule tokens_after_colons)
  moreover have "strtok s '':'' = Some (takeWhile (\<lambda>c. c \<noteq> CHR '':'') (dropWhile (\<lambda>c. c = CHR '':'') s),
      drop 1 (dropWhile (\<lambda>c. c \<noteq> CHR '':'') (dropWhile (\<lambda>c. c = CHR '':'') s)))"
    using False by (simp add: strtok_def Let_def)
  ultimately show ?thesis by simp
qed

lemma strtok_rest_tokens:
  assumes "tokens s = t # ts"
  shows "tokens (drop 1 (dropWhile (\<lambda>c. c \<noteq> CHR '':'') (dropWhile (\<lambda>c. c = CHR '':'') s))) = ts"
proof (cases "dropWhile (\<lambda>c. c = CHR '':'') s = []")
  case True
  then have "tokens s = []" by (rule tokens_only_colons)
  with assms show ?thesis by simp
next
  case False
  then have "tokens s = takeWhile (\<lambda>c. c \<noteq> CHR '':'') (dropWhile (\<lambda>c. c = CHR '':'') s)
           # tokens (drop 1 (dropWhile (\<lambda>c. c \<noteq> CHR '':'') (dropWhile (\<lambda>c. c = CHR '':'') s)))"
    by (rule tokens_after_colons)
  with assms show ?thesis by simp
qed

lemma token_not_empty: "t \<in> set (tokens s) \<Longrightarrow> t \<noteq> []"
  by (simp add: tokens_def)

lemma add_airport_tokens:
  assumes "tokens command = ident # others"
  shows "add_airport command airports =
     (if ident \<in> name ` set airports then Inr airports
      else (case others of
              [] \<Rightarrow> Inr airports
            | port # others' \<Rightarrow>
                if list_all isdigit port
                then insert_airport \<lparr>name = ident, portNumber = port\<rparr> airports
                else Inr airports))"
proof -
  let ?rest = "drop 1 (dropWhile (\<lambda>c. c \<noteq> CHR '':'') (dropWhile (\<lambda>c. c = CHR '':'') command))"
  have s1: "strtok command '':'' = Some (ident, ?rest)"
    using assms by (simp add: strtok_tokens)
  have r: "tokens ?rest = others" using assms by (rule strtok_rest_tokens)
  show ?thesis
  proof (cases others)
    case Nil
    then have "strtok ?rest '':'' = None" using r by (simp add: strtok_tokens)
    then show ?thesis using s1 Nil by (simp add: add_airport_def get_airport_index_absent)
  next
    case (Cons port others')
    then have s2: "strtok ?rest '':'' = Some (port,
        drop 1 (dropWhile (\<lambda>c. c \<noteq> CHR '':'') (dropWhile (\<lambda>c. c = CHR '':'') ?rest)))"
      using r by (simp add: strtok_tokens)
    have "port \<in> set (tokens ?rest)" using r Cons by simp
    then have "port \<noteq> []" by (rule token_not_empty)
    then have "\<not> length port < 1" by (cases port) auto
    then show ?thesis
      using s1 s2 Cons by (simp add: add_airport_def get_airport_index_absent is_integer_def)
  qed
qed

lemma mapper_step_line:
  "mapper_step (m @ [NL]) airports =
     (if (first_char m = CHR ''?'' \<or> first_char m = CHR ''!'') \<and> length m < 2
      then Inr (airports, [])
      else after_events [TakeLock]
             (case handle_input m airports of
                Inl f \<Rightarrow> Inl f
              | Inr (airports', evs) \<Rightarrow> Inr (airports', evs @ [ReleaseLock])))"
  by (simp add: mapper_step_def after_events_def split: sum.splits)

subsection \<open>What a registration does to the registry\<close>

lemma insert_airport_result:
  "insert_airport a airports = Inr airports' \<Longrightarrow>
     length airports < maxAirports \<and>
     airports' = takeWhile (\<lambda>b. name b \<le> name a) airports @ a # dropWhile (\<lambda>b. name b \<le> name a) airports"
proof -
  assume r: "insert_airport a airports = Inr airports'"
  then have l: "length airports < maxAirports"
    by (auto simp: insert_airport_def Let_def split: if_splits)
  then show ?thesis using r by (simp add: insert_airport_closed_form)
qed

lemma add_airport_result:
  assumes "add_airport command airports = Inr airports'"
  shows "airports' = airports \<or>
     (\<exists>a. name a \<notin> name ` set airports \<and> length airports < maxAirports \<and>
        airports' = takeWhile (\<lambda>b. name b \<le> name a) airports @ a # dropWhile (\<lambda>b. name b \<le> name a) airports)"
proof (cases "tokens command")
  case Nil
  then have "strtok command '':'' = None" by (simp add: strtok_tokens)
  then show ?thesis using assms by (auto simp: add_airport_def split: if_splits)
next
  case (Cons ident others)
  note t = add_airport_tokens [OF Cons, of airports]
  show ?thesis
  proof (cases "ident \<in> name ` set airports")
    case True
    then show ?thesis using assms t by simp
  next
    case False
    show ?thesis
    proof (cases others)
      case Nil
      then show ?thesis using assms t False by simp
    next
      case (Cons port others')
      show ?thesis
      proof (cases "list_all isdigit port")
        case True
        then have "insert_airport \<lparr>name = ident, portNumber = port\<rparr> airports = Inr airports'"
          using assms t False Cons by simp
        then have "length airports < maxAirports \<and>
          airports' = takeWhile (\<lambda>b. name b \<le> ident) airports @ \<lparr>name = ident, portNumber = port\<rparr>
             # dropWhile (\<lambda>b. name b \<le> ident) airports"
          using insert_airport_result [of "\<lparr>name = ident, portNumber = port\<rparr>" airports airports']
          by simp
        then have "name \<lparr>name = ident, portNumber = port\<rparr> \<notin> name ` set airports \<and>
           length airports < maxAirports \<and>
           airports' = takeWhile (\<lambda>b. name b \<le> name \<lparr>name = ident, portNumber = port\<rparr>) airports
             @ \<lparr>name = ident, portNumber = port\<rparr>
             # dropWhile (\<lambda>b. name b \<le> name \<lparr>name = ident, portNumber = port\<rparr>) airports"
          using False by simp
        then show ?thesis by blast
      next
        case no: False
        then show ?thesis using assms t False Cons by simp
      qed
    qed
  qed
qed

lemma handle_input_result:
  assumes "handle_input m airports = Inr (airports', evs)"
  shows "airports' = airports \<or>
     (first_char m = CHR ''!'' \<and>
      (\<exists>a. name a \<notin> name ` set airports \<and> length airports < maxAirports \<and>
        airports' = takeWhile (\<lambda>b. name b \<le> name a) airports @ a # dropWhile (\<lambda>b. name b \<le> name a) airports))"
proof (cases "first_char m = CHR ''!''")
  case True
  then obtain r where "add_airport (tl m) airports = Inr r" and "airports' = r"
    using assms by (auto simp: handle_input_def split: sum.splits)
  then show ?thesis using add_airport_result [of "tl m" airports airports'] True by simp
next
  case False
  then show ?thesis using assms by (auto simp: handle_input_def Let_def split: if_splits)
qed

lemma mapper_step_result:
  assumes "mapper_step raw airports = Inr (airports', evs)"
  shows "airports' = airports \<or>
     (first_char (butlast raw) = CHR ''!'' \<and>
      (\<exists>a. name a \<notin> name ` set airports \<and> length airports < maxAirports \<and>
        airports' = takeWhile (\<lambda>b. name b \<le> name a) airports @ a # dropWhile (\<lambda>b. name b \<le> name a) airports))"
proof (cases "raw = [] \<or> ((first_char (butlast raw) = CHR ''?'' \<or> first_char (butlast raw) = CHR ''!'') \<and> length (butlast raw) < 2)")
  case True
  then show ?thesis using assms by (auto simp: mapper_step_def Let_def split: if_splits)
next
  case False
  then obtain evs' where "handle_input (butlast raw) airports = Inr (airports', evs')"
    using assms by (auto simp: mapper_step_def Let_def split: if_splits sum.splits)
  then show ?thesis by (rule handle_input_result)
qed

lemma distinct_insert_position:
  assumes "distinct (map f xs)" "f a \<notin> f ` set xs"
  shows "distinct (map f (takeWhile P xs @ a # dropWhile P xs))"
proof -
  have "distinct (map f (takeWhile P xs @ dropWhile P xs))" using assms(1) by simp
  moreover have "f a \<notin> f ` set (takeWhile P xs @ dropWhile P xs)" using assms(2) by simp
  ultimately show ?thesis by (simp del: takeWhile_dropWhile_id) blast
qed

lemma mapper_reachable_invariant:
  "mapper_reachable airports \<Longrightarrow>
     sorted (map name airports) \<and> distinct (map name airports) \<and> length airports \<le> maxAirports"
proof (induction rule: mapper_reachable.induct)
  case mapper_initial
  show ?case by simp
next
  case (mapper_iteration airports raw airports' evs)
  from mapper_iteration.hyps(2) have
    "airports' = airports \<or>
     (first_char (butlast raw) = CHR ''!'' \<and>
      (\<exists>a. name a \<notin> name ` set airports \<and> length airports < maxAirports \<and>
        airports' = takeWhile (\<lambda>b. name b \<le> name a) airports @ a # dropWhile (\<lambda>b. name b \<le> name a) airports))"
    by (rule mapper_step_result)
  then show ?case
  proof
    assume "airports' = airports"
    then show ?thesis using mapper_iteration.IH by simp
  next
    assume "first_char (butlast raw) = CHR ''!'' \<and>
      (\<exists>a. name a \<notin> name ` set airports \<and> length airports < maxAirports \<and>
        airports' = takeWhile (\<lambda>b. name b \<le> name a) airports @ a # dropWhile (\<lambda>b. name b \<le> name a) airports)"
    then obtain a where a: "name a \<notin> name ` set airports" "length airports < maxAirports"
      and e: "airports' = takeWhile (\<lambda>b. name b \<le> name a) airports @ a # dropWhile (\<lambda>b. name b \<le> name a) airports"
      by blast
    have ih: "sorted (map name airports)" "distinct (map name airports)"
      using mapper_iteration.IH by simp_all
    have "sorted (map name airports')"
      unfolding e using ih(1) by (rule sorted_insert_position)
    moreover have "distinct (map name airports')"
      unfolding e using ih(2) a(1) by (rule distinct_insert_position)
    moreover have "length airports' \<le> maxAirports"
      unfolding e using a(2) by (simp only: length_insert_position Suc_le_eq)
    ultimately show ?thesis by simp
  qed
qed

subsection \<open>What a visit does to the log\<close>

lemma add_plane_result:
  "add_plane plane planes = Inr planes' \<Longrightarrow>
     length planes < maxPlanes \<and>
     planes' = takeWhile (\<lambda>p. p \<le> plane) planes @ plane # dropWhile (\<lambda>p. p \<le> plane) planes"
proof -
  assume r: "add_plane plane planes = Inr planes'"
  then have l: "length planes < maxPlanes"
    by (auto simp: add_plane_def Let_def split: if_splits)
  then show ?thesis using r by (simp add: add_plane_closed_form)
qed

lemma verify_message_framing: "verify_message received \<longleftrightarrow> \<not> spec_framing_violation received"
proof (cases "length received < 2")
  case True
  then have v: "\<not> verify_message received" by (simp add: verify_message_def)
  have "received = [] \<or> butlast received = []" using True by (cases received) auto
  then have "spec_framing_violation received"
    unfolding spec_framing_violation_def by blast
  with v show ?thesis by simp
next
  case False
  then have n: "received \<noteq> []" by auto
  have b: "butlast received \<noteq> []"
  proof
    assume "butlast received = []"
    then have "length (butlast received) = 0" by simp
    then show False using False by simp
  qed
  have l: "received ! (length received - Suc 0) = last received"
    using n by (simp add: last_conv_nth)
  have t: "take (length received - Suc 0) received = butlast received"
    by (simp add: butlast_conv_take)
  have v: "verify_message received \<longleftrightarrow>
             last received = NL \<and>
             (\<forall>c \<in> set (butlast received). \<not> (c = NL \<or> c = CR \<or> c = CHR '':''))"
    using False by (simp add: verify_message_def Let_def l t list_all_iff)
  have f: "spec_framing_violation received \<longleftrightarrow>
             last received \<noteq> NL \<or>
             (\<exists>c \<in> set (butlast received). c = CR \<or> c = NL \<or> c = CHR '':'')"
    using n b by (simp add: spec_framing_violation_def list_ex_iff)
  show ?thesis unfolding v f by blast
qed

lemma verify_message_line: "verify_message raw \<Longrightarrow> raw = butlast raw @ [NL]"
proof -
  assume v: "verify_message raw"
  then have "raw \<noteq> []" and "last raw = NL"
    by (simp_all add: verify_message_framing spec_framing_violation_def)
  then show ?thesis by (metis append_butlast_last_id)
qed

lemma control_step_invalid:
  "\<not> verify_message raw \<Longrightarrow>
   control_step info raw (planes, lock) = Inr ((planes, lock), [], Continue)"
  by (simp add: control_step_def)

lemma control_step_blocked:
  "verify_message raw \<Longrightarrow>
   control_step info raw (planes, 0) = Inr ((planes, 0), [], Blocked)"
  by (simp add: control_step_def take_lock_def)

lemma verify_message_log: "verify_message (''log'' @ [NL])"
  by (simp add: verify_message_def)

lemma control_step_log:
  "control_step info (''log'' @ [NL]) (planes, Suc lock) =
     Inr ((planes, lock),
          [TakeLock, RegistryOp] @ map (\<lambda>p. Write (p @ [NL])) planes @ [Write (''.'' @ [NL]), Flush],
          Break)"
  by (simp add: control_step_def verify_message_def take_lock_def)

lemma control_step_visit:
  assumes "verify_message raw" "butlast raw \<noteq> ''log''" "length planes < maxPlanes"
  shows "control_step info raw (planes, Suc lock) =
     Inr ((takeWhile (\<lambda>p. p \<le> butlast raw) planes @ butlast raw
             # dropWhile (\<lambda>p. p \<le> butlast raw) planes, Suc lock),
          [TakeLock, Write (info @ [NL]), Flush, RegistryOp, ReleaseLock], Continue)"
proof -
  have "strcmp ''log'' (butlast raw) \<noteq> 0" using assms(2) by (auto simp: strcmp_eq_0_iff)
  then show ?thesis
    using assms(1,3)
    by (simp add: control_step_def take_lock_def release_lock_def Let_def
        add_plane_closed_form)
qed

lemma control_step_cases:
  assumes "control_step info raw (planes, lock) = Inr ((planes', lock'), evs, st)"
  shows "(\<not> verify_message raw \<and> planes' = planes \<and> lock' = lock \<and> evs = [] \<and> st = Continue) \<or>
         (verify_message raw \<and> lock = 0 \<and> planes' = planes \<and> lock' = lock \<and> evs = [] \<and> st = Blocked) \<or>
         (raw = ''log'' @ [NL] \<and> lock = Suc lock' \<and> planes' = planes \<and> st = Break \<and>
            evs = [TakeLock, RegistryOp] @ map (\<lambda>p. Write (p @ [NL])) planes
                    @ [Write (''.'' @ [NL]), Flush]) \<or>
         (verify_message raw \<and> butlast raw \<noteq> ''log'' \<and> 0 < lock \<and> lock' = lock \<and>
            length planes < maxPlanes \<and> st = Continue \<and>
            planes' = takeWhile (\<lambda>p. p \<le> butlast raw) planes @ butlast raw
                        # dropWhile (\<lambda>p. p \<le> butlast raw) planes \<and>
            evs = [TakeLock, Write (info @ [NL]), Flush, RegistryOp, ReleaseLock])"
proof (cases "verify_message raw")
  case False
  then show ?thesis using assms by (simp add: control_step_invalid)
next
  case v: True
  show ?thesis
  proof (cases lock)
    case 0
    then show ?thesis using assms v by (simp add: control_step_blocked)
  next
    case (Suc l)
    show ?thesis
    proof (cases "butlast raw = ''log''")
      case True
      then have r: "raw = ''log'' @ [NL]" using verify_message_line [OF v] by simp
      show ?thesis using assms unfolding r Suc by (simp only: control_step_log) auto
    next
      case False
      obtain r where a: "add_plane (butlast raw) planes = Inr r"
        using assms v False unfolding Suc
        by (auto simp: control_step_def take_lock_def Let_def strcmp_eq_0_iff
            split: if_splits sum.splits)
      from add_plane_result [OF a] have l: "length planes < maxPlanes" by simp
      show ?thesis
        using assms v False l unfolding Suc
        by (simp only: control_step_visit [OF v False l]) auto
    qed
  qed
qed

lemma control_step_Break:
  assumes "control_step info raw (planes, lock) = Inr ((planes', lock'), evs, Break)"
  shows "raw = ''log'' @ [NL] \<and> planes' = planes \<and> lock = Suc lock' \<and>
         evs = [TakeLock, RegistryOp] @ map (\<lambda>p. Write (p @ [NL])) planes @ [Write (''.'' @ [NL]), Flush]"
  using control_step_cases [OF assms] by auto

lemma control_step_Blocked:
  assumes "control_step info raw (planes, lock) = Inr ((planes', lock'), evs, Blocked)"
  shows "planes' = planes \<and> lock' = lock \<and> lock = 0 \<and> evs = []"
  using control_step_cases [OF assms] by auto

lemma control_step_Continue:
  assumes "control_step info raw (planes, lock) = Inr ((planes', lock'), evs, Continue)"
  shows "lock' = lock \<and>
         ((planes' = planes \<and> evs = []) \<or>
          (length planes < maxPlanes \<and>
           planes' = takeWhile (\<lambda>p. p \<le> butlast raw) planes @ butlast raw
                       # dropWhile (\<lambda>p. p \<le> butlast raw) planes \<and>
           evs = [TakeLock, Write (info @ [NL]), Flush, RegistryOp, ReleaseLock]))"
  using control_step_cases [OF assms] by auto

lemma control_step_planes:
  assumes "control_step info raw (planes, lock) = Inr ((planes', lock'), evs, st)"
  shows "planes' = planes \<or>
         (length planes < maxPlanes \<and>
          planes' = takeWhile (\<lambda>p. p \<le> butlast raw) planes @ butlast raw
                      # dropWhile (\<lambda>p. p \<le> butlast raw) planes)"
  using control_step_cases [OF assms] by auto

lemma control_step_lock:
  assumes "control_step info raw (planes, lock) = Inr ((planes', lock'), evs, st)"
  shows "lock' \<le> lock"
  using control_step_cases [OF assms] by auto

lemma control_reachable_invariant:
  "control_reachable state \<Longrightarrow>
     sorted (fst state) \<and> length (fst state) \<le> maxPlanes \<and> snd state \<le> 1"
proof (induction rule: control_reachable.induct)
  case control_initial
  show ?case by (simp add: init_lock_def)
next
  case (control_iteration state info raw state' evs st)
  obtain planes lock where s: "state = (planes, lock)" by (cases state)
  obtain planes' lock' where s': "state' = (planes', lock')" by (cases state')
  note step = control_iteration.hyps(2) [unfolded s s']
  have ih: "sorted planes" "length planes \<le> maxPlanes" "lock \<le> 1"
    using control_iteration.IH by (simp_all add: s)
  have lk: "lock' \<le> 1" using control_step_lock [OF step] ih(3) by simp
  from control_step_planes [OF step] show ?case
  proof
    assume "planes' = planes"
    then show ?thesis using ih lk by (simp add: s')
  next
    assume a: "length planes < maxPlanes \<and>
          planes' = takeWhile (\<lambda>p. p \<le> butlast raw) planes @ butlast raw
                      # dropWhile (\<lambda>p. p \<le> butlast raw) planes"
    have "sorted (map id planes)" using ih(1) by simp
    then have "sorted (map id (takeWhile (\<lambda>p. id p \<le> id (butlast raw)) planes @ butlast raw
                      # dropWhile (\<lambda>p. id p \<le> id (butlast raw)) planes))"
      by (rule sorted_insert_position)
    then have "sorted planes'" using a by simp
    moreover have "length planes' \<le> maxPlanes"
      using a by (simp only: length_insert_position Suc_le_eq)
    ultimately show ?thesis using lk by (simp add: s')
  qed
qed

lemma response_append: "response (xs @ ys) = response xs @ response ys"
  by (induction xs rule: response.induct) simp_all

lemma response_map_Write: "response (map (\<lambda>x. Write (f x)) xs) = concat (map f xs)"
  by (induction xs) simp_all

subsection \<open>Requests of the mapper, line by line\<close>

lemma first_char_Cons: "first_char (c # cs) = c"
  by (simp add: first_char_def)

lemma mapper_step_lookup:
  "ident \<noteq> [] \<Longrightarrow>
   mapper_step (CHR ''?'' # ident @ [NL]) airports =
     Inr (airports,
          [TakeLock, RegistryOp,
           Write (case List.find (\<lambda>a. name a = ident) airports of
                    None \<Rightarrow> '';'' @ [NL] | Some a \<Rightarrow> portNumber a @ [NL]),
           Flush, ReleaseLock])"
proof -
  assume "ident \<noteq> []"
  then have l: "\<not> length (CHR ''?'' # ident) < 2" by (cases ident) auto
  have h: "handle_input (CHR ''?'' # ident) airports =
     Inr (airports,
          [RegistryOp,
           Write (case List.find (\<lambda>a. name a = ident) airports of
                    None \<Rightarrow> '';'' @ [NL] | Some a \<Rightarrow> portNumber a @ [NL]),
           Flush])"
    using lookup_write [of ident airports]
    by (simp add: handle_input_def first_char_Cons Let_def)
  have "mapper_step ((CHR ''?'' # ident) @ [NL]) airports =
     Inr (airports,
          [TakeLock, RegistryOp,
           Write (case List.find (\<lambda>a. name a = ident) airports of
                    None \<Rightarrow> '';'' @ [NL] | Some a \<Rightarrow> portNumber a @ [NL]),
           Flush, ReleaseLock])"
    using l by (simp only: mapper_step_line h first_char_Cons) (simp add: after_events_def)
  then show ?thesis by simp
qed

lemma mapper_step_registration:
  assumes "tokens payload = ident # others"
  shows "mapper_step (CHR ''!'' # payload @ [NL]) airports =
     (case add_airport payload airports of
        Inl f \<Rightarrow> Inl f
      | Inr airports' \<Rightarrow> Inr (airports', [TakeLock, RegistryOp, ReleaseLock]))"
proof -
  have "payload \<noteq> []" using assms by (auto simp: tokens_Nil)
  then have l: "\<not> length (CHR ''!'' # payload) < 2" by (cases payload) auto
  have h: "handle_input (CHR ''!'' # payload) airports =
     (case add_airport payload airports of
        Inl f \<Rightarrow> Inl f
      | Inr airports' \<Rightarrow> Inr (airports', [RegistryOp]))"
    by (simp add: handle_input_def first_char_Cons)
  have "mapper_step ((CHR ''!'' # payload) @ [NL]) airports =
     (case add_airport payload airports of
        Inl f \<Rightarrow> Inl f
      | Inr airports' \<Rightarrow> Inr (airports', [TakeLock, RegistryOp, ReleaseLock]))"
    using l by (simp only: mapper_step_line h first_char_Cons)
      (simp add: after_events_def split: sum.splits)
  then show ?thesis by simp
qed

lemma mapper_step_enumeration:
  "mapper_step (''@'' @ [NL]) airports =
     Inr (airports,
          [TakeLock, RegistryOp]
            @ map (\<lambda>a. Write (name a @ '':'' @ portNumber a @ [NL])) airports
            @ [Flush, ReleaseLock])"
  using mapper_step_line [of "''@''" airports]
  by (simp add: handle_input_def first_char_Cons after_events_def)

lemma mapper_step_unrecognised:
  assumes "first_char m \<noteq> CHR ''?''" "first_char m \<noteq> CHR ''!''" "m \<noteq> ''@''"
  shows "mapper_step (m @ [NL]) airports = Inr (airports, [TakeLock, ReleaseLock])"
proof -
  have "handle_input m airports = Inr (airports, [])"
    using assms by (simp add: handle_input_def strcmp_eq_0_iff)
  then show ?thesis using assms by (simp add: mapper_step_line after_events_def)
qed

lemma tokens_ident_colon:
  assumes "t \<noteq> []" "CHR '':'' \<notin> set t"
  shows "tokens (t @ CHR '':'' # r) = t # tokens r"
proof -
  have tw: "takeWhile (\<lambda>c. c \<noteq> CHR '':'') (t @ CHR '':'' # r) = t"
    using assms(2) by (simp add: takeWhile_append)
  have dw: "dropWhile (\<lambda>c. c \<noteq> CHR '':'') (t @ CHR '':'' # r) = CHR '':'' # r"
    using assms(2) by (simp add: dropWhile_append)
  show ?thesis using assms(1) by (subst tokens_split) (simp add: tw dw)
qed

lemma tokens_single:
  assumes "t \<noteq> []" "CHR '':'' \<notin> set t"
  shows "tokens t = [t]"
proof -
  have tw: "takeWhile (\<lambda>c. c \<noteq> CHR '':'') t = t" using assms(2) by (auto simp: takeWhile_eq_all_conv)
  have dw: "dropWhile (\<lambda>c. c \<noteq> CHR '':'') t = []" using assms(2) by auto
  show ?thesis using assms(1) by (subst tokens_split) (simp add: tw dw tokens_Nil)
qed

lemma colon_not_digit: "\<not> isdigit (CHR '':'')"
  by (simp add: isdigit_def)

lemma digits_no_colon:
  assumes "list_all isdigit p"
  shows "CHR '':'' \<notin> set p"
proof
  assume "CHR '':'' \<in> set p"
  with assms have "isdigit (CHR '':'')" unfolding list_all_iff by blast
  with colon_not_digit show False by simp
qed

lemma find_skip_prefix:
  "\<forall>b \<in> set ys. \<not> Q b \<Longrightarrow> List.find Q (ys @ zs) = List.find Q zs"
  by (induction ys) simp_all

lemma find_inserted:
  assumes "f a = v" "v \<notin> f ` set xs"
  shows "List.find (\<lambda>b. f b = v) (takeWhile P xs @ a # dropWhile P xs) = Some a"
proof -
  have "\<forall>b \<in> set (takeWhile P xs). \<not> f b = v" using assms(2) by (auto dest: set_takeWhileD)
  then have "List.find (\<lambda>b. f b = v) (takeWhile P xs @ a # dropWhile P xs)
               = List.find (\<lambda>b. f b = v) (a # dropWhile P xs)"
    by (rule find_skip_prefix)
  then show ?thesis using assms(1) by simp
qed

lemma accept_loop_eq:
  "accept_loop i bound accepts = filter (\<lambda>fd. 0 \<le> fd) (take (bound - i) accepts)"
proof (induction i bound accepts rule: accept_loop.induct)
  case (1 i bound accepts)
  show ?case
  proof (cases "i < bound")
    case False
    then show ?thesis by (subst accept_loop.simps) simp
  next
    case True
    then obtain d where d: "bound - i = Suc d" "bound - Suc i = d"
      by (metis Suc_diff_Suc)
    show ?thesis
    proof (cases accepts)
      case Nil
      then show ?thesis using True by (subst accept_loop.simps) simp
    next
      case (Cons fd rest)
      then show ?thesis
        using True "1.IH" d by (subst accept_loop.simps) simp
    qed
  qed
qed

subsection \<open>Example registries\<close>

lemma register_BNE:
  "mapper_step (''!BNE:8001'' @ [NL]) [] =
     Inr ([\<lparr>name = ''BNE'', portNumber = ''8001''\<rparr>], [TakeLock, RegistryOp, ReleaseLock])"
  by code_simp

lemma reachable_BNE: "mapper_reachable [\<lparr>name = ''BNE'', portNumber = ''8001''\<rparr>]"
  using mapper_initial register_BNE by (rule mapper_iteration)

subsection \<open>The condition of the specification on registrations\<close>

lemma spec_wellformed_tokens:
  assumes "spec_registration_wellformed payload"
  shows "\<exists>ident port. tokens payload = [ident, port] \<and> list_all isdigit port"
proof -
  let ?ident = "takeWhile (\<lambda>c. c \<noteq> CHR '':'') payload"
  let ?rest = "dropWhile (\<lambda>c. c \<noteq> CHR '':'') payload"
  from assms have i: "?ident \<noteq> []" and r: "?rest \<noteq> []" and nc: "CHR '':'' \<notin> set (tl ?rest)"
    and pv: "spec_port_valid (tl ?rest)"
    by (simp_all add: spec_registration_wellformed_def Let_def)
  from pv have pn: "tl ?rest \<noteq> []" and pd: "list_all isdigit (tl ?rest)"
    by (simp_all add: spec_port_valid_def)
  have "hd ?rest = CHR '':''" using r hd_dropWhile [of "\<lambda>c. c \<noteq> CHR '':''" payload] by simp
  then have rc: "?rest = CHR '':'' # tl ?rest" using r by (cases ?rest) simp_all
  have "payload = ?ident @ ?rest" by simp
  then have p: "payload = ?ident @ CHR '':'' # tl ?rest" using rc by simp
  have ic: "CHR '':'' \<notin> set ?ident" by (auto dest: set_takeWhileD)
  have "tokens (?ident @ CHR '':'' # tl ?rest) = ?ident # tokens (tl ?rest)"
    using i ic by (rule tokens_ident_colon)
  also have "tokens (tl ?rest) = [tl ?rest]" using pn nc by (rule tokens_single)
  finally have "tokens (?ident @ CHR '':'' # tl ?rest) = [?ident, tl ?rest]" .
  then have "tokens payload = [?ident, tl ?rest]" using p by simp
  with pd show ?thesis by blast
qed

subsection \<open>The semaphore along a sequence of events\<close>

lemma holds_append: "holds held (xs @ ys) = holds (holds held xs) ys"
  by (induction held xs rule: holds.induct) simp_all

lemma none_while_locked_append:
  "none_while_locked P held (xs @ ys) \<longleftrightarrow>
     none_while_locked P held xs \<and> none_while_locked P (holds held xs) ys"
  by (induction P held xs rule: none_while_locked.induct) simp_all

lemma holds_no_lock_events:
  "\<forall>e \<in> set evs. e \<noteq> TakeLock \<and> e \<noteq> ReleaseLock \<Longrightarrow> holds held evs = held"
  by (induction held evs rule: holds.induct) simp_all

lemma none_while_locked_absent:
  "\<forall>e \<in> set evs. \<not> P e \<Longrightarrow> none_while_locked P held evs"
  by (induction P held evs rule: none_while_locked.induct) simp_all

lemma critical_section_split:
  assumes "critical_section evs"
  shows "\<exists>ops. evs = TakeLock # ops @ [ReleaseLock] \<and>
           (\<forall>e \<in> set ops. e \<noteq> TakeLock \<and> e \<noteq> ReleaseLock \<and> e \<noteq> Read \<and> e \<noteq> Close) \<and>
           length (filter (\<lambda>e. e = RegistryOp) ops) \<le> 1"
proof -
  from assms obtain rest where e: "evs = TakeLock # rest" and n: "rest \<noteq> []"
    and l: "last rest = ReleaseLock"
    and a: "\<forall>e \<in> set (butlast rest). e \<noteq> TakeLock \<and> e \<noteq> ReleaseLock \<and> e \<noteq> Read \<and> e \<noteq> Close"
    and c: "length (filter (\<lambda>e. e = RegistryOp) (butlast rest)) \<le> 1"
    by (auto simp: critical_section_def split: list.splits event.splits)
  have "rest = butlast rest @ [ReleaseLock]" using n l by (metis append_butlast_last_id)
  then have "evs = TakeLock # butlast rest @ [ReleaseLock]" using e by simp
  with a c show ?thesis by blast
qed

lemma critical_section_released:
  assumes "critical_section evs"
  shows "holds held evs = False" and "none_while_locked (\<lambda>e. e = Read) held evs"
proof -
  from critical_section_split [OF assms] obtain ops where
    e: "evs = TakeLock # ops @ [ReleaseLock]"
    and a: "\<forall>e \<in> set ops. e \<noteq> TakeLock \<and> e \<noteq> ReleaseLock \<and> e \<noteq> Read \<and> e \<noteq> Close"
    by blast
  have h: "holds True ops = True" using a by (simp add: holds_no_lock_events)
  show "holds held evs = False" by (simp add: e holds_append h)
  have "none_while_locked (\<lambda>e. e = Read) True ops"
    using a by (simp add: none_while_locked_absent)
  then show "none_while_locked (\<lambda>e. e = Read) held evs"
    by (simp add: e none_while_locked_append h)
qed

lemma handle_input_events:
  assumes "handle_input m airports = Inr (airports', evs)"
  shows "(\<forall>e \<in> set evs. e \<noteq> TakeLock \<and> e \<noteq> ReleaseLock \<and> e \<noteq> Read \<and> e \<noteq> Close) \<and>
         length (filter (\<lambda>e. e = RegistryOp) evs) \<le> 1"
proof -
  consider "evs = [RegistryOp, Write (if get_airport_index (tl m) airports = - 1 then '';'' @ [NL]
                     else portNumber (airports ! nat (get_airport_index (tl m) airports)) @ [NL]), Flush]"
    | "evs = [RegistryOp]"
    | "evs = RegistryOp # map (\<lambda>a. Write (name a @ '':'' @ portNumber a @ [NL])) airports @ [Flush]"
    | "evs = []"
    using assms by (auto simp: handle_input_def Let_def split: if_splits sum.splits)
  then show ?thesis
  proof cases
    case 1
    then show ?thesis by simp
  next
    case 2
    then show ?thesis by simp
  next
    case 3
    have "filter (\<lambda>e. e = RegistryOp) (map (\<lambda>a. Write (name a @ '':'' @ portNumber a @ [NL])) airports) = []"
      by (induction airports) simp_all
    then show ?thesis using 3 by auto
  next
    case 4
    then show ?thesis by simp
  qed
qed

lemma mapper_step_events:
  assumes "mapper_step raw airports = Inr (airports', evs)"
  shows "evs = [] \<or> critical_section evs"
proof (cases "raw = [] \<or> ((first_char (butlast raw) = CHR ''?'' \<or> first_char (butlast raw) = CHR ''!'') \<and> length (butlast raw) < 2)")
  case True
  then show ?thesis using assms by (auto simp: mapper_step_def Let_def split: if_splits)
next
  case False
  then obtain ops where h: "handle_input (butlast raw) airports = Inr (airports', ops)"
    and e: "evs = TakeLock # ops @ [ReleaseLock]"
    using assms by (auto simp: mapper_step_def Let_def split: if_splits sum.splits)
  have "critical_section (TakeLock # ops @ [ReleaseLock])"
    using handle_input_events [OF h] by (simp add: critical_section_def)
  then show ?thesis using e by simp
qed

lemma mapper_client_handler_reads:
  "mapper_client_handler lines airports = Inr (airports', evs) \<Longrightarrow>
     none_while_locked (\<lambda>e. e = Read) False evs \<and> \<not> holds False evs"
proof (induction lines arbitrary: airports airports' evs)
  case Nil
  then show ?case by auto
next
  case (Cons raw lines)
  from Cons.prems obtain a1 ev1 ev2 where
    s: "mapper_step raw airports = Inr (a1, ev1)"
    and r: "mapper_client_handler lines a1 = Inr (airports', ev2)"
    and e: "evs = Read # ev1 @ ev2"
    by (auto split: sum.splits)
  from Cons.IH [OF r] have ih: "none_while_locked (\<lambda>e. e = Read) False ev2" "\<not> holds False ev2"
    by simp_all
  from mapper_step_events [OF s] have
    "holds False ev1 = False \<and> none_while_locked (\<lambda>e. e = Read) False ev1"
    using critical_section_released [of ev1 False] by auto
  then show ?case using ih by (simp add: e holds_append none_while_locked_append)
qed

subsection \<open>Reading a line\<close>

lemma fgets_take_line:
  "NL \<notin> set line \<Longrightarrow> length line < n \<Longrightarrow>
   fgets_take n (line @ NL # rest) = (line @ [NL], rest)"
proof (induction line arbitrary: n)
  case Nil
  then obtain m where "n = Suc m" by (cases n) auto
  then show ?case by simp
next
  case (Cons c line)
  then obtain m where n: "n = Suc m" by (cases n) auto
  have "fgets_take m (line @ NL # rest) = (line @ [NL], rest)"
    using Cons.IH [of m] Cons.prems n by simp
  then show ?case using Cons.prems n by auto
qed

lemma fgets_line:
  assumes "NL \<notin> set line" "length line \<le> 78"
  shows "fgets (MAX_CHARS + 1) (line @ NL # rest) = Some (line @ [NL], rest)"
proof -
  have "fgets_take 79 (line @ NL # rest) = (line @ [NL], rest)"
    using assms by (intro fgets_take_line) simp_all
  then show ?thesis by (simp add: fgets_def MAX_CHARS_def)
qed

subsection \<open>Events under the semaphore\<close>

lemma all_while_locked_append:
  "all_while_locked P held (xs @ ys) \<longleftrightarrow>
     all_while_locked P held xs \<and> all_while_locked P (holds held xs) ys"
  by (induction P held xs rule: all_while_locked.induct) simp_all

lemma all_while_locked_held:
  "\<forall>e \<in> set evs. e \<noteq> ReleaseLock \<Longrightarrow> all_while_locked P True evs"
  by (induction P True evs rule: all_while_locked.induct) simp_all

lemma critical_section_under_lock:
  assumes "critical_section evs"
  shows "all_while_locked P held evs"
proof -
  from critical_section_split [OF assms] obtain ops where
    e: "evs = TakeLock # ops @ [ReleaseLock]"
    and a: "\<forall>e \<in> set ops. e \<noteq> TakeLock \<and> e \<noteq> ReleaseLock \<and> e \<noteq> Read \<and> e \<noteq> Close"
    by blast
  have "all_while_locked P True ops" using a by (simp add: all_while_locked_held)
  then show ?thesis by (simp add: e all_while_locked_append)
qed

lemma log_events_under_lock:
  "all_while_locked P False
     ([TakeLock, RegistryOp] @ map (\<lambda>p. Write (p @ [NL])) planes @ [Write (''.'' @ [NL]), Flush])"
proof -
  have "\<forall>e \<in> set (RegistryOp # map (\<lambda>p. Write (p @ [NL])) planes @ [Write (''.'' @ [NL]), Flush]).
          e \<noteq> ReleaseLock"
    by auto
  then have "all_while_locked P True
               (RegistryOp # map (\<lambda>p. Write (p @ [NL])) planes @ [Write (''.'' @ [NL]), Flush])"
    by (rule all_while_locked_held)
  then show ?thesis by simp
qed

lemma log_events_one_registry_op:
  "length (filter (\<lambda>e. e = RegistryOp)
     ([TakeLock, RegistryOp] @ map (\<lambda>p. Write (p @ [NL])) planes @ [Write (''.'' @ [NL]), Flush])) \<le> 1"
proof -
  have "filter (\<lambda>e. e = RegistryOp) (map (\<lambda>p. Write (p @ [NL])) planes) = []"
    by (induction planes) simp_all
  then show ?thesis by simp
qed

lemma critical_section_one_registry_op:
  assumes "critical_section evs"
  shows "length (filter (\<lambda>e. e = RegistryOp) evs) \<le> 1"
proof -
  from critical_section_split [OF assms] obtain ops where
    e: "evs = TakeLock # ops @ [ReleaseLock]"
    and c: "length (filter (\<lambda>e. e = RegistryOp) ops) \<le> 1"
    by blast
  show ?thesis using c by (simp add: e)
qed

lemma control_step_events:
  assumes "control_step info raw (planes, lock) = Inr ((planes', lock'), evs, st)"
  shows "(st = Continue \<longrightarrow> evs = [] \<or> critical_section evs) \<and>
         (st = Blocked \<longrightarrow> evs = []) \<and>
         (st = Break \<longrightarrow> RegistryOp \<in> set evs \<and> Write (''.'' @ [NL]) \<in> set evs) \<and>
         all_while_locked registry_or_output False evs \<and>
         length (filter (\<lambda>e. e = RegistryOp) evs) \<le> 1 \<and>
         Read \<notin> set evs \<and> Close \<notin> set evs"
proof -
  have c: "critical_section [TakeLock, Write (info @ [NL]), Flush, RegistryOp, ReleaseLock]"
    by (simp add: critical_section_def)
  from control_step_cases [OF assms] consider
    (ignored) "evs = []" "st = Continue \<or> st = Blocked"
    | (log) "st = Break"
        "evs = [TakeLock, RegistryOp] @ map (\<lambda>p. Write (p @ [NL])) planes @ [Write (''.'' @ [NL]), Flush]"
    | (visit) "st = Continue"
        "evs = [TakeLock, Write (info @ [NL]), Flush, RegistryOp, ReleaseLock]"
    by auto
  then show ?thesis
  proof cases
    case ignored
    then show ?thesis by auto
  next
    case log
    have "Read \<notin> set evs \<and> Close \<notin> set evs \<and> RegistryOp \<in> set evs \<and> Write (''.'' @ [NL]) \<in> set evs"
      unfolding log(2) by auto
    then show ?thesis
      using log(1) log_events_under_lock [of registry_or_output planes]
        log_events_one_registry_op [of planes]
      unfolding log(2) by simp
  next
    case visit
    show ?thesis
      using visit(1) c critical_section_under_lock [OF c, of registry_or_output False]
      unfolding visit(2) by simp
  qed
qed

lemma mapper_step_under_lock:
  assumes "mapper_step raw airports = Inr (airports', evs)"
  shows "all_while_locked registry_or_output False evs \<and>
         length (filter (\<lambda>e. e = RegistryOp) evs) \<le> 1"
proof -
  from mapper_step_events [OF assms] show ?thesis
  proof
    assume "evs = []"
    then show ?thesis by simp
  next
    assume c: "critical_section evs"
    show ?thesis
      using critical_section_under_lock [OF c, of registry_or_output False]
        critical_section_one_registry_op [OF c]
      by simp
  qed
qed

lemma control_client_handler_reads:
  "control_client_handler info lines state = Inr (state', evs, st) \<Longrightarrow>
     none_while_locked (\<lambda>e. e = Read) False evs"
proof (induction lines arbitrary: state state' evs st)
  case Nil
  then show ?case by auto
next
  case (Cons line lines)
  obtain planes lock where s: "state = (planes, lock)" by (cases state)
  from Cons.prems obtain s1 ev1 st1 where
    step: "control_step info line state = Inr (s1, ev1, st1)"
    by (auto split: sum.splits)
  obtain p1 l1 where s1: "s1 = (p1, l1)" by (cases s1)
  note ev = control_step_events [OF step [unfolded s s1]]
  have nr: "\<forall>e \<in> set ev1. \<not> e = Read" using ev by auto
  show ?case
  proof (cases st1)
    case Break
    then have e: "evs = Read # ev1 @ [Close, Close]" using Cons.prems step by simp
    have "\<forall>e \<in> set (ev1 @ [Close, Close]). \<not> e = Read" using nr by auto
    then have "none_while_locked (\<lambda>e. e = Read) False (ev1 @ [Close, Close])"
      by (rule none_while_locked_absent)
    then show ?thesis by (simp add: e)
  next
    case Blocked
    then have e: "evs = Read # ev1" using Cons.prems step by simp
    have "none_while_locked (\<lambda>e. e = Read) False ev1" using nr by (rule none_while_locked_absent)
    then show ?thesis by (simp add: e)
  next
    case Continue
    then obtain ev2 where r: "control_client_handler info lines s1 = Inr (state', ev2, st)"
      and e: "evs = Read # ev1 @ ev2"
      using Cons.prems step by (auto split: sum.splits)
    from Cons.IH [OF r] have ih: "none_while_locked (\<lambda>e. e = Read) False ev2" .
    have "ev1 = [] \<or> critical_section ev1" using ev Continue by simp
    then have "holds False ev1 = False \<and> none_while_locked (\<lambda>e. e = Read) False ev1"
      using critical_section_released [of ev1 False] by auto
    then show ?thesis using ih by (simp add: e holds_append none_while_locked_append)
  qed
qed

subsection \<open>Example states and sessions\<close>

lemma register_ADL:
  "mapper_step (''!ADL:8002'' @ [NL]) [\<lparr>name = ''BNE'', portNumber = ''8001''\<rparr>] =
     Inr ([\<lparr>name = ''ADL'', portNumber = ''8002''\<rparr>, \<lparr>name = ''BNE'', portNumber = ''8001''\<rparr>],
          [TakeLock, RegistryOp, ReleaseLock])"
  by code_simp

lemma reachable_ADL_BNE:
  "mapper_reachable [\<lparr>name = ''ADL'', portNumber = ''8002''\<rparr>, \<lparr>name = ''BNE'', portNumber = ''8001''\<rparr>]"
  using reachable_BNE register_ADL by (rule mapper_iteration)

lemma visit_CD456:
  "control_step ''quarantined'' (''CD456'' @ [NL]) ([], init_lock) =
     Inr (([''CD456''], init_lock),
          [TakeLock, Write (''quarantined'' @ [NL]), Flush, RegistryOp, ReleaseLock], Continue)"
  by code_simp

lemma visit_AB123:
  "control_step ''quarantined'' (''AB123'' @ [NL]) ([''CD456''], init_lock) =
     Inr (([''AB123'', ''CD456''], init_lock),
          [TakeLock, Write (''quarantined'' @ [NL]), Flush, RegistryOp, ReleaseLock], Continue)"
  by code_simp

lemma log_AB123_CD456:
  "control_step ''quarantined'' (''log'' @ [NL]) ([''AB123'', ''CD456''], init_lock) =
     Inr (([''AB123'', ''CD456''], 0),
          [TakeLock, RegistryOp, Write (''AB123'' @ [NL]), Write (''CD456'' @ [NL]),
           Write (''.'' @ [NL]), Flush], Break)"
  by code_simp

lemma reachable_CD456: "control_reachable ([''CD456''], init_lock)"
  using control_initial visit_CD456 by (rule control_iteration)

lemma reachable_AB123_CD456: "control_reachable ([''AB123'', ''CD456''], init_lock)"
  using reachable_CD456 visit_AB123 by (rule control_iteration)

lemma session_mapper_example:
  "mapper_client_handler [''!BNE:8001'' @ [NL], ''?BNE'' @ [NL]] []
     = Inr ([\<lparr>name = ''BNE'', portNumber = ''8001''\<rparr>],
            [Read, TakeLock, RegistryOp, ReleaseLock,
             Read, TakeLock, RegistryOp, Write (''8001'' @ [NL]), Flush, ReleaseLock,
             Read, Close, Close])"
  by code_simp

lemma session_control_example:
  "control_client_handler ''quarantined'' [''AB123'' @ [NL], ''log'' @ [NL]] ([''CD456''], init_lock)
     = Inr (([''AB123'', ''CD456''], 0),
            [Read, TakeLock, Write (''quarantined'' @ [NL]), Flush, RegistryOp, ReleaseLock,
             Read, TakeLock, RegistryOp, Write (''AB123'' @ [NL]), Write (''CD456'' @ [NL]),
             Write (''.'' @ [NL]), Flush, Close, Close],
            Break)"
  by code_simp

lemma blocked_after_log:
  "control_step ''quarantined'' (''EF789'' @ [NL]) ([''AB123'', ''CD456''], 0)
     = Inr (([''AB123'', ''CD456''], 0), [], Blocked)"
  by code_simp

lemma lookup_BNE_example:
  "mapper_step (''?BNE'' @ [NL]) [\<lparr>name = ''ADL'', portNumber = ''8002''\<rparr>, \<lparr>name = ''BNE'', portNumber = ''8001''\<rparr>]
     = Inr ([\<lparr>name = ''ADL'', portNumber = ''8002''\<rparr>, \<lparr>name = ''BNE'', portNumber = ''8001''\<rparr>],
            [TakeLock, RegistryOp, Write (''8001'' @ [NL]), Flush, ReleaseLock])"
  by code_simp

lemma enumeration_example:
  "mapper_step (''@'' @ [NL]) [\<lparr>name = ''ADL'', portNumber = ''8002''\<rparr>, \<lparr>name = ''BNE'', portNumber = ''8001''\<rparr>]
     = Inr ([\<lparr>name = ''ADL'', portNumber = ''8002''\<rparr>, \<lparr>name = ''BNE'', portNumber = ''8001''\<rparr>],
          [TakeLock, RegistryOp, Write (''ADL:8002'' @ [NL]), Write (''BNE:8001'' @ [NL]),
           Flush, ReleaseLock])"
  by code_simp

subsection \<open>The log command while the semaphore is free\<close>

lemma log_command_free_semaphore:
  assumes "control_reachable (planes, lock)" "0 < lock"
  shows "\<exists>evs. control_step info (''log'' @ [NL]) (planes, lock) = Inr ((planes, lock - 1), evs, Break) \<and>
           response evs = concat (map (\<lambda>p. p @ [NL]) planes) @ ''.'' @ [NL] \<and>
           sorted planes \<and>
           control_client_handler info ((''log'' @ [NL]) # lines) (planes, lock)
             = Inr ((planes, lock - 1), Read # evs @ [Close, Close], Break)"
proof -
  obtain l where l: "lock = Suc l" using assms(2) by (cases lock) auto
  let ?evs = "[TakeLock, RegistryOp] @ map (\<lambda>p. Write (p @ [NL])) planes @ [Write (''.'' @ [NL]), Flush]"
  have s: "control_step info (''log'' @ [NL]) (planes, lock) = Inr ((planes, lock - 1), ?evs, Break)"
    unfolding l by (simp only: control_step_log) simp
  have r: "response ?evs = concat (map (\<lambda>p. p @ [NL]) planes) @ ''.'' @ [NL]"
    by (simp add: response_append response_map_Write)
  have o: "sorted planes" using control_reachable_invariant [OF assms(1)] by simp
  have h: "control_client_handler info ((''log'' @ [NL]) # lines) (planes, lock)
             = Inr ((planes, lock - 1), Read # ?evs @ [Close, Close], Break)"
    by (simp only: control_client_handler.simps s) simp
  show ?thesis
    by (rule exI [of _ ?evs]) (rule conjI [OF s conjI [OF r conjI [OF o h]]])
qed

section \<open>The semaphore and the connection (C1)\<close>

text \<open>
  C1 as stated does not hold. Both handlers write the answer between \<open>take_lock\<close> and
  \<open>release_lock\<close>: the mapper's iteration on \<open>?BNE\<close> writes while it holds the
  semaphore. And the control's \<open>log\<close> branch leaves the loop without \<open>release_lock\<close>:
  after the iteration on \<open>log\<close>, and after the whole handler, the semaphore is still
  held and its value is 0.
\<close>

theorem lock_discipline_counterexample:
  "mapper_step (''?BNE'' @ [NL]) []
     = Inr ([], [TakeLock, RegistryOp, Write ('';'' @ [NL]), Flush, ReleaseLock]) \<and>
   \<not> none_while_locked is_Write False
       [TakeLock, RegistryOp, Write ('';'' @ [NL]), Flush, ReleaseLock] \<and>
   control_step ''quarantined'' (''log'' @ [NL]) ([], init_lock)
     = Inr (([], 0), [TakeLock, RegistryOp, Write (''.'' @ [NL]), Flush], Break) \<and>
   holds False [TakeLock, RegistryOp, Write (''.'' @ [NL]), Flush] \<and>
   control_client_handler ''quarantined'' [''log'' @ [NL]] ([], init_lock)
     = Inr (([], 0), [Read, TakeLock, RegistryOp, Write (''.'' @ [NL]), Flush, Close, Close], Break) \<and>
   holds False [Read, TakeLock, RegistryOp, Write (''.'' @ [NL]), Flush, Close, Close]"
proof -
  have c1: "mapper_step (''?BNE'' @ [NL]) []
     = Inr ([], [TakeLock, RegistryOp, Write ('';'' @ [NL]), Flush, ReleaseLock])"
    by code_simp
  have c2: "\<not> none_while_locked is_Write False
       [TakeLock, RegistryOp, Write ('';'' @ [NL]), Flush, ReleaseLock]"
    by simp
  have c3: "control_step ''quarantined'' (''log'' @ [NL]) ([], init_lock)
     = Inr (([], 0), [TakeLock, RegistryOp, Write (''.'' @ [NL]), Flush], Break)"
    by code_simp
  have c4: "holds False [TakeLock, RegistryOp, Write (''.'' @ [NL]), Flush]"
    by simp
  have c5: "control_client_handler ''quarantined'' [''log'' @ [NL]] ([], init_lock)
     = Inr (([], 0), [Read, TakeLock, RegistryOp, Write (''.'' @ [NL]), Flush, Close, Close], Break)"
    by code_simp
  have c6: "holds False [Read, TakeLock, RegistryOp, Write (''.'' @ [NL]), Flush, Close, Close]"
    by simp
  show ?thesis
    by (rule conjI [OF c1 conjI [OF c2 conjI [OF c3 conjI [OF c4 conjI [OF c5 c6]]]]])
qed

text \<open>
  C1, amended. Every iteration that uses the registry or writes to the connection, in
  the mapper and in the control, the \<open>log\<close> iteration included, has taken the
  semaphore before and holds it during its registry operation, of which there is at most
  one, and during every write of its answer. Every iteration of the mapper, and every
  iteration of the control that stays in the loop, is either an ignored line, which
  touches neither the semaphore nor the connection's output, or one critical section
  ended by the release of the semaphore, whose value is then what it was. Over a whole
  handler, of the mapper or of the control, no read from the connection happens while
  the handler holds the semaphore, and the mapper's handler does not hold it when it
  ends.
\<close>

theorem lock_discipline:
  "(mapper_step raw airports = Inr (airports', evs) \<longrightarrow>
      (evs = [] \<or> critical_section evs) \<and>
      all_while_locked registry_or_output False evs \<and>
      length (filter (\<lambda>e. e = RegistryOp) evs) \<le> 1) \<and>
   (control_step info line (planes, lock) = Inr ((planes', lock'), cevs, st) \<longrightarrow>
      all_while_locked registry_or_output False cevs \<and>
      length (filter (\<lambda>e. e = RegistryOp) cevs) \<le> 1 \<and>
      Read \<notin> set cevs \<and>
      (st = Continue \<longrightarrow> (cevs = [] \<or> critical_section cevs) \<and> lock' = lock) \<and>
      (st = Break \<longrightarrow> RegistryOp \<in> set cevs \<and> Write (''.'' @ [NL]) \<in> set cevs) \<and>
      (st = Blocked \<longrightarrow> cevs = [])) \<and>
   (mapper_client_handler lines airports = Inr (airports'', mevs) \<longrightarrow>
      none_while_locked (\<lambda>e. e = Read) False mevs \<and> \<not> holds False mevs) \<and>
   (control_client_handler info lines state = Inr (state', hevs, hst) \<longrightarrow>
      none_while_locked (\<lambda>e. e = Read) False hevs)"
proof (intro conjI impI)
  assume m: "mapper_step raw airports = Inr (airports', evs)"
  show "evs = [] \<or> critical_section evs" using m by (rule mapper_step_events)
  show "all_while_locked registry_or_output False evs"
    using mapper_step_under_lock [OF m] by simp
  show "length (filter (\<lambda>e. e = RegistryOp) evs) \<le> 1"
    using mapper_step_under_lock [OF m] by simp
next
  assume c: "control_step info line (planes, lock) = Inr ((planes', lock'), cevs, st)"
  note e = control_step_events [OF c]
  show "all_while_locked registry_or_output False cevs" using e by simp
  show "length (filter (\<lambda>e. e = RegistryOp) cevs) \<le> 1" using e by simp
  show "Read \<notin> set cevs" using e by simp
  {
    assume s: "st = Continue"
    show "cevs = [] \<or> critical_section cevs" using e s by simp
    show "lock' = lock" using control_step_Continue [OF c [unfolded s]] by simp
  }
  {
    assume s: "st = Break"
    show "RegistryOp \<in> set cevs" using e s by simp
    show "Write (''.'' @ [NL]) \<in> set cevs" using e s by simp
  }
  {
    assume s: "st = Blocked"
    show "cevs = []" using e s by simp
  }
next
  assume m: "mapper_client_handler lines airports = Inr (airports'', mevs)"
  from mapper_client_handler_reads [OF m]
  show "none_while_locked (\<lambda>e. e = Read) False mevs" and "\<not> holds False mevs" by simp_all
next
  assume "control_client_handler info lines state = Inr (state', hevs, hst)"
  then show "none_while_locked (\<lambda>e. e = Read) False hevs"
    by (rule control_client_handler_reads)
qed

theorem lock_discipline_witness:
  "mapper_step (''!ADL:8002'' @ [NL]) [\<lparr>name = ''BNE'', portNumber = ''8001''\<rparr>]
     = Inr ([\<lparr>name = ''ADL'', portNumber = ''8002''\<rparr>, \<lparr>name = ''BNE'', portNumber = ''8001''\<rparr>], [TakeLock, RegistryOp, ReleaseLock]) \<and>
   (critical_section [TakeLock, RegistryOp, ReleaseLock] \<and>
    all_while_locked registry_or_output False [TakeLock, RegistryOp, ReleaseLock] \<and>
    length (filter (\<lambda>e. e = RegistryOp) [TakeLock, RegistryOp, ReleaseLock]) \<le> 1) \<and>
   control_step ''quarantined'' (''AB123'' @ [NL]) ([''CD456''], init_lock)
     = Inr (([''AB123'', ''CD456''], init_lock),
            [TakeLock, Write (''quarantined'' @ [NL]), Flush, RegistryOp, ReleaseLock], Continue) \<and>
   (critical_section [TakeLock, Write (''quarantined'' @ [NL]), Flush, RegistryOp, ReleaseLock] \<and>
    all_while_locked registry_or_output False [TakeLock, Write (''quarantined'' @ [NL]), Flush, RegistryOp, ReleaseLock]) \<and>
   control_step ''quarantined'' (''log'' @ [NL]) ([''AB123'', ''CD456''], init_lock)
     = Inr (([''AB123'', ''CD456''], 0),
          [TakeLock, RegistryOp, Write (''AB123'' @ [NL]), Write (''CD456'' @ [NL]),
           Write (''.'' @ [NL]), Flush], Break) \<and>
   (all_while_locked registry_or_output False
      [TakeLock, RegistryOp, Write (''AB123'' @ [NL]), Write (''CD456'' @ [NL]),
           Write (''.'' @ [NL]), Flush] \<and>
    RegistryOp \<in> set [TakeLock, RegistryOp, Write (''AB123'' @ [NL]), Write (''CD456'' @ [NL]),
           Write (''.'' @ [NL]), Flush]) \<and>
   mapper_client_handler [''!BNE:8001'' @ [NL], ''?BNE'' @ [NL]] []
     = Inr ([\<lparr>name = ''BNE'', portNumber = ''8001''\<rparr>],
            [Read, TakeLock, RegistryOp, ReleaseLock,
             Read, TakeLock, RegistryOp, Write (''8001'' @ [NL]), Flush, ReleaseLock,
             Read, Close, Close]) \<and>
   (none_while_locked (\<lambda>e. e = Read) False
      [Read, TakeLock, RegistryOp, ReleaseLock,
             Read, TakeLock, RegistryOp, Write (''8001'' @ [NL]), Flush, ReleaseLock,
             Read, Close, Close] \<and>
    \<not> holds False
      [Read, TakeLock, RegistryOp, ReleaseLock,
             Read, TakeLock, RegistryOp, Write (''8001'' @ [NL]), Flush, ReleaseLock,
             Read, Close, Close]) \<and>
   control_client_handler ''quarantined'' [''AB123'' @ [NL], ''log'' @ [NL]] ([''CD456''], init_lock)
     = Inr (([''AB123'', ''CD456''], 0),
            [Read, TakeLock, Write (''quarantined'' @ [NL]), Flush, RegistryOp, ReleaseLock,
             Read, TakeLock, RegistryOp, Write (''AB123'' @ [NL]), Write (''CD456'' @ [NL]),
             Write (''.'' @ [NL]), Flush, Close, Close],
            Break) \<and>
   none_while_locked (\<lambda>e. e = Read) False
      [Read, TakeLock, Write (''quarantined'' @ [NL]), Flush, RegistryOp, ReleaseLock,
             Read, TakeLock, RegistryOp, Write (''AB123'' @ [NL]), Write (''CD456'' @ [NL]),
             Write (''.'' @ [NL]), Flush, Close, Close] \<and>
   control_step ''quarantined'' (''EF789'' @ [NL]) ([''AB123'', ''CD456''], 0)
     = Inr (([''AB123'', ''CD456''], 0), [], Blocked) \<and>
   all_while_locked registry_or_output False []"
proof -
  note m = lock_discipline [THEN conjunct1, THEN mp, OF register_ADL]
  note v = lock_discipline [THEN conjunct2, THEN conjunct1, THEN mp, OF visit_AB123]
  note l = lock_discipline [THEN conjunct2, THEN conjunct1, THEN mp, OF log_AB123_CD456]
  note b = lock_discipline [THEN conjunct2, THEN conjunct1, THEN mp, OF blocked_after_log]
  note sm = lock_discipline [THEN conjunct2, THEN conjunct2, THEN conjunct1, THEN mp,
      OF session_mapper_example]
  note sc = lock_discipline [THEN conjunct2, THEN conjunct2, THEN conjunct2, THEN mp,
      OF session_control_example]
  have c1: "mapper_step (''!ADL:8002'' @ [NL]) [\<lparr>name = ''BNE'', portNumber = ''8001''\<rparr>]
     = Inr ([\<lparr>name = ''ADL'', portNumber = ''8002''\<rparr>, \<lparr>name = ''BNE'', portNumber = ''8001''\<rparr>], [TakeLock, RegistryOp, ReleaseLock])"
    by (rule register_ADL)
  have c2: "critical_section [TakeLock, RegistryOp, ReleaseLock] \<and>
    all_while_locked registry_or_output False [TakeLock, RegistryOp, ReleaseLock] \<and>
    length (filter (\<lambda>e. e = RegistryOp) [TakeLock, RegistryOp, ReleaseLock]) \<le> 1"
    using m by simp
  have c3: "control_step ''quarantined'' (''AB123'' @ [NL]) ([''CD456''], init_lock)
     = Inr (([''AB123'', ''CD456''], init_lock),
            [TakeLock, Write (''quarantined'' @ [NL]), Flush, RegistryOp, ReleaseLock], Continue)"
    by (rule visit_AB123)
  have c4: "critical_section [TakeLock, Write (''quarantined'' @ [NL]), Flush, RegistryOp, ReleaseLock] \<and>
    all_while_locked registry_or_output False [TakeLock, Write (''quarantined'' @ [NL]), Flush, RegistryOp, ReleaseLock]"
    using v by simp
  have c5: "control_step ''quarantined'' (''log'' @ [NL]) ([''AB123'', ''CD456''], init_lock)
     = Inr (([''AB123'', ''CD456''], 0),
          [TakeLock, RegistryOp, Write (''AB123'' @ [NL]), Write (''CD456'' @ [NL]),
           Write (''.'' @ [NL]), Flush], Break)"
    by (rule log_AB123_CD456)
  have c6: "all_while_locked registry_or_output False
      [TakeLock, RegistryOp, Write (''AB123'' @ [NL]), Write (''CD456'' @ [NL]),
           Write (''.'' @ [NL]), Flush] \<and>
    RegistryOp \<in> set [TakeLock, RegistryOp, Write (''AB123'' @ [NL]), Write (''CD456'' @ [NL]),
           Write (''.'' @ [NL]), Flush]"
    using l by simp
  have c7: "mapper_client_handler [''!BNE:8001'' @ [NL], ''?BNE'' @ [NL]] []
     = Inr ([\<lparr>name = ''BNE'', portNumber = ''8001''\<rparr>],
            [Read, TakeLock, RegistryOp, ReleaseLock,
             Read, TakeLock, RegistryOp, Write (''8001'' @ [NL]), Flush, ReleaseLock,
             Read, Close, Close])"
    by (rule session_mapper_example)
  have c8: "none_while_locked (\<lambda>e. e = Read) False
      [Read, TakeLock, RegistryOp, ReleaseLock,
             Read, TakeLock, RegistryOp, Write (''8001'' @ [NL]), Flush, ReleaseLock,
             Read, Close, Close] \<and>
    \<not> holds False
      [Read, TakeLock, RegistryOp, ReleaseLock,
             Read, TakeLock, RegistryOp, Write (''8001'' @ [NL]), Flush, ReleaseLock,
             Read, Close, Close]"
    by (rule sm)
  have c9: "control_client_handler ''quarantined'' [''AB123'' @ [NL], ''log'' @ [NL]] ([''CD456''], init_lock)
     = Inr (([''AB123'', ''CD456''], 0),
            [Read, TakeLock, Write (''quarantined'' @ [NL]), Flush, RegistryOp, ReleaseLock,
             Read, TakeLock, RegistryOp, Write (''AB123'' @ [NL]), Write (''CD456'' @ [NL]),
             Write (''.'' @ [NL]), Flush, Close, Close],
            Break)"
    by (rule session_control_example)
  have c10: "none_while_locked (\<lambda>e. e = Read) False
      [Read, TakeLock, Write (''quarantined'' @ [NL]), Flush, RegistryOp, ReleaseLock,
             Read, TakeLock, RegistryOp, Write (''AB123'' @ [NL]), Write (''CD456'' @ [NL]),
             Write (''.'' @ [NL]), Flush, Close, Close]"
    by (rule sc)
  have c11: "control_step ''quarantined'' (''EF789'' @ [NL]) ([''AB123'', ''CD456''], 0)
     = Inr (([''AB123'', ''CD456''], 0), [], Blocked)"
    by (rule blocked_after_log)
  have c12: "all_while_locked registry_or_output False []"
    using b by simp
  show ?thesis
    by (rule conjI [OF c1 conjI [OF c2 conjI [OF c3 conjI [OF c4 conjI [OF c5 conjI [OF c6
          conjI [OF c7 conjI [OF c8 conjI [OF c9 conjI [OF c10 conjI [OF c11 c12]]]]]]]]]]])
qed

section \<open>Ordered insertion (C2)\<close>

text \<open>
  C2. Into a registry array whose keys are in non-decreasing byte-wise lexicographic order
  and which still has a free slot, \<open>add_plane\<close> (control) and the insertion step of
  \<open>add_airport\<close> (mapper) put the new entry behind every entry with a key less than or
  equal to the new key and in front of every entry with a greater key; the array grows by
  exactly one entry and is in non-decreasing key order again. An entry with a key already
  present therefore goes behind the entries that have it.
\<close>

theorem ordered_insertion:
  "(sorted planes \<and> length planes < maxPlanes \<longrightarrow>
      (\<exists>planes'. add_plane plane planes = Inr planes' \<and>
         inserted_in_order id plane planes planes' \<and>
         length planes' = Suc (length planes) \<and> sorted planes')) \<and>
   (sorted (map name airports) \<and> length airports < maxAirports \<longrightarrow>
      (\<exists>airports'. insert_airport a airports = Inr airports' \<and>
         inserted_in_order name a airports airports' \<and>
         length airports' = Suc (length airports) \<and> sorted (map name airports')))"
proof (intro conjI impI)
  assume h: "sorted planes \<and> length planes < maxPlanes"
  let ?r = "takeWhile (\<lambda>p. id p \<le> id plane) planes @ plane # dropWhile (\<lambda>p. id p \<le> id plane) planes"
  have s: "sorted (map id planes)" using h by simp
  have "add_plane plane planes = Inr ?r" using h by (simp add: add_plane_closed_form)
  moreover have "inserted_in_order id plane planes ?r" using s by (rule inserted_in_order_takeWhile)
  moreover have "length ?r = Suc (length planes)"
    by (rule length_insert_position)
  moreover have "sorted (map id ?r)" using s by (rule sorted_insert_position)
  ultimately show "\<exists>planes'. add_plane plane planes = Inr planes' \<and>
         inserted_in_order id plane planes planes' \<and>
         length planes' = Suc (length planes) \<and> sorted planes'"
    by (metis list.map_id)
next
  assume h: "sorted (map name airports) \<and> length airports < maxAirports"
  let ?r = "takeWhile (\<lambda>b. name b \<le> name a) airports @ a # dropWhile (\<lambda>b. name b \<le> name a) airports"
  have s: "sorted (map name airports)" using h by simp
  have "insert_airport a airports = Inr ?r" using h by (simp add: insert_airport_closed_form)
  moreover have "inserted_in_order name a airports ?r" using s by (rule inserted_in_order_takeWhile)
  moreover have "length ?r = Suc (length airports)"
    by (rule length_insert_position)
  moreover have "sorted (map name ?r)" using s by (rule sorted_insert_position)
  ultimately show "\<exists>airports'. insert_airport a airports = Inr airports' \<and>
         inserted_in_order name a airports airports' \<and>
         length airports' = Suc (length airports) \<and> sorted (map name airports')"
    by blast
qed

theorem ordered_insertion_witness:
  "(sorted [''a'', ''b'', ''c''] \<and> length [''a'', ''b'', ''c''] < maxPlanes) \<and>
   (\<exists>planes'. add_plane ''b'' [''a'', ''b'', ''c''] = Inr planes' \<and>
      inserted_in_order id ''b'' [''a'', ''b'', ''c''] planes' \<and>
      length planes' = Suc (length [''a'', ''b'', ''c'']) \<and> sorted planes') \<and>
   (sorted (map name [\<lparr>name = ''BNE'', portNumber = ''8001''\<rparr>]) \<and>
      length [\<lparr>name = ''BNE'', portNumber = ''8001''\<rparr>] < maxAirports) \<and>
   (\<exists>airports'. insert_airport \<lparr>name = ''ADL'', portNumber = ''8002''\<rparr>
        [\<lparr>name = ''BNE'', portNumber = ''8001''\<rparr>] = Inr airports' \<and>
      inserted_in_order name \<lparr>name = ''ADL'', portNumber = ''8002''\<rparr>
        [\<lparr>name = ''BNE'', portNumber = ''8001''\<rparr>] airports' \<and>
      length airports' = Suc (length [\<lparr>name = ''BNE'', portNumber = ''8001''\<rparr>]) \<and>
      sorted (map name airports'))"
proof -
  have h1: "sorted [''a'', ''b'', ''c''] \<and> length [''a'', ''b'', ''c''] < maxPlanes"
    by (simp add: maxPlanes_def)
  have h2: "sorted (map name [\<lparr>name = ''BNE'', portNumber = ''8001''\<rparr>]) \<and>
      length [\<lparr>name = ''BNE'', portNumber = ''8001''\<rparr>] < maxAirports"
    by (simp add: maxAirports_def)
  show ?thesis
    using h1 h2
      ordered_insertion [of "[''a'', ''b'', ''c'']" "''b''"
        "[\<lparr>name = ''BNE'', portNumber = ''8001''\<rparr>]"
        "\<lparr>name = ''ADL'', portNumber = ''8002''\<rparr>"]
    by blast
qed

section \<open>Which registrations the mapper accepts (C3)\<close>

text \<open>
  C3 as stated does not hold: the mapper checks the port only for being made of digits,
  never its value, and it cuts the payload into tokens at colons, so that more than one
  colon is tolerated. The payload \<open>a:0\<close>, whose port is outside [1, 65535], and the
  payload \<open>a:80:90\<close>, with two colons, both fail the stated condition and are both
  registered. Moreover a line of 79 characters in front of its newline does not fit the
  buffer: \<open>fgets\<close> returns it without the newline and the handler cuts its last
  character, so that the line made of \<open>!\<close>, an id of 75 letters and \<open>:12\<close> registers
  the id with port 1.
\<close>

theorem registration_condition_counterexample:
  "\<not> spec_registration_wellformed ''a:0'' \<and>
   mapper_step (''!a:0'' @ [NL]) []
     = Inr ([\<lparr>name = ''a'', portNumber = ''0''\<rparr>], [TakeLock, RegistryOp, ReleaseLock]) \<and>
   \<not> spec_registration_wellformed ''a:80:90'' \<and>
   mapper_step (''!a:80:90'' @ [NL]) []
     = Inr ([\<lparr>name = ''a'', portNumber = ''80''\<rparr>], [TakeLock, RegistryOp, ReleaseLock]) \<and>
   spec_registration_wellformed
     ''aaaaaaaaaaaaaaaaaaaaaaaaaaaaaaaaaaaaaaaaaaaaaaaaaaaaaaaaaaaaaaaaaaaaaaaaaaa:12'' \<and>
   fgets (MAX_CHARS + 1)
     (''!aaaaaaaaaaaaaaaaaaaaaaaaaaaaaaaaaaaaaaaaaaaaaaaaaaaaaaaaaaaaaaaaaaaaaaaaaaa:12'' @ [NL])
     = Some (''!aaaaaaaaaaaaaaaaaaaaaaaaaaaaaaaaaaaaaaaaaaaaaaaaaaaaaaaaaaaaaaaaaaaaaaaaaaa:12'', [NL]) \<and>
   mapper_step
     ''!aaaaaaaaaaaaaaaaaaaaaaaaaaaaaaaaaaaaaaaaaaaaaaaaaaaaaaaaaaaaaaaaaaaaaaaaaaa:12'' []
     = Inr ([\<lparr>name = ''aaaaaaaaaaaaaaaaaaaaaaaaaaaaaaaaaaaaaaaaaaaaaaaaaaaaaaaaaaaaaaaaaaaaaaaaaaa'',
              portNumber = ''1''\<rparr>], [TakeLock, RegistryOp, ReleaseLock])"
proof -
  have c1: "\<not> spec_registration_wellformed ''a:0''"
    by code_simp
  have c2: "mapper_step (''!a:0'' @ [NL]) []
     = Inr ([\<lparr>name = ''a'', portNumber = ''0''\<rparr>], [TakeLock, RegistryOp, ReleaseLock])"
    by code_simp
  have c3: "\<not> spec_registration_wellformed ''a:80:90''"
    by code_simp
  have c4: "mapper_step (''!a:80:90'' @ [NL]) []
     = Inr ([\<lparr>name = ''a'', portNumber = ''80''\<rparr>], [TakeLock, RegistryOp, ReleaseLock])"
    by code_simp
  have c5: "spec_registration_wellformed
     ''aaaaaaaaaaaaaaaaaaaaaaaaaaaaaaaaaaaaaaaaaaaaaaaaaaaaaaaaaaaaaaaaaaaaaaaaaaa:12''"
    by (simp add: spec_registration_wellformed_def spec_port_valid_def decimal_value_def
        isdigit_def)
  have c6: "fgets (MAX_CHARS + 1)
     (''!aaaaaaaaaaaaaaaaaaaaaaaaaaaaaaaaaaaaaaaaaaaaaaaaaaaaaaaaaaaaaaaaaaaaaaaaaaa:12'' @ [NL])
     = Some (''!aaaaaaaaaaaaaaaaaaaaaaaaaaaaaaaaaaaaaaaaaaaaaaaaaaaaaaaaaaaaaaaaaaaaaaaaaaa:12'', [NL])"
    by (simp add: fgets_def MAX_CHARS_def eval_nat_numeral)
  have c7: "mapper_step
     ''!aaaaaaaaaaaaaaaaaaaaaaaaaaaaaaaaaaaaaaaaaaaaaaaaaaaaaaaaaaaaaaaaaaaaaaaaaaa:12'' []
     = Inr ([\<lparr>name = ''aaaaaaaaaaaaaaaaaaaaaaaaaaaaaaaaaaaaaaaaaaaaaaaaaaaaaaaaaaaaaaaaaaaaaaaaaaa'',
              portNumber = ''1''\<rparr>], [TakeLock, RegistryOp, ReleaseLock])"
    by code_simp
  show ?thesis
    by (rule conjI [OF c1 conjI [OF c2 conjI [OF c3 conjI [OF c4 conjI [OF c5 conjI [OF c6 c7]]]]]])
qed

text \<open>
  C3, amended. Take a registration line whose payload, the text between \<open>!\<close> and the
  newline, has at most 77 characters, so that \<open>fgets\<close> returns the whole line with its
  newline, and has an id token, the tokens being the non-empty pieces between its
  colons. The line is accepted exactly when there is a second token and it consists of
  digits only; its value is not looked at and whatever follows the second token is
  ignored. A line that is not accepted changes nothing, and neither does an accepted
  line whose id is a key already; an accepted line whose id is not yet a key puts the
  entry of the first two tokens in at its place in key order, given a free slot among
  the 1000 of the array. No registration line is answered. Every payload that meets
  the condition of the specification (a non-empty id, one colon, a valid port) has
  exactly two tokens, the second all digits, and so is accepted.
\<close>

theorem registration_acceptance:
  "(NL \<notin> set payload \<and> length payload \<le> 77 \<and> tokens payload = ident # others \<and>
      (others = [] \<or> \<not> list_all isdigit (hd others) \<or> ident \<in> name ` set airports) \<longrightarrow>
      fgets (MAX_CHARS + 1) (CHR ''!'' # payload @ NL # stream)
        = Some (CHR ''!'' # payload @ [NL], stream) \<and>
      mapper_step (CHR ''!'' # payload @ [NL]) airports
        = Inr (airports, [TakeLock, RegistryOp, ReleaseLock])) \<and>
   (NL \<notin> set payload \<and> length payload \<le> 77 \<and> tokens payload = ident # port # others \<and>
      list_all isdigit port \<and> ident \<notin> name ` set airports \<and>
      length airports < maxAirports \<longrightarrow>
      fgets (MAX_CHARS + 1) (CHR ''!'' # payload @ NL # stream)
        = Some (CHR ''!'' # payload @ [NL], stream) \<and>
      mapper_step (CHR ''!'' # payload @ [NL]) airports
        = Inr (takeWhile (\<lambda>b. name b \<le> ident) airports
                 @ \<lparr>name = ident, portNumber = port\<rparr>
                 # dropWhile (\<lambda>b. name b \<le> ident) airports,
               [TakeLock, RegistryOp, ReleaseLock])) \<and>
   (spec_registration_wellformed payload \<longrightarrow>
      (\<exists>ident port. tokens payload = [ident, port] \<and> list_all isdigit port))"
proof (intro conjI impI)
  assume a: "NL \<notin> set payload \<and> length payload \<le> 77 \<and> tokens payload = ident # others \<and>
      (others = [] \<or> \<not> list_all isdigit (hd others) \<or> ident \<in> name ` set airports)"
  then have t: "tokens payload = ident # others" by simp
  have "NL \<notin> set (CHR ''!'' # payload)" and "length (CHR ''!'' # payload) \<le> 78"
    using a by simp_all
  then have "fgets (MAX_CHARS + 1) ((CHR ''!'' # payload) @ NL # stream)
        = Some ((CHR ''!'' # payload) @ [NL], stream)"
    by (rule fgets_line)
  then show "fgets (MAX_CHARS + 1) (CHR ''!'' # payload @ NL # stream)
        = Some (CHR ''!'' # payload @ [NL], stream)"
    by simp
  have "add_airport payload airports = Inr airports"
    using add_airport_tokens [OF t, of airports] a by (cases others) auto
  then show "mapper_step (CHR ''!'' # payload @ [NL]) airports
        = Inr (airports, [TakeLock, RegistryOp, ReleaseLock])"
    using mapper_step_registration [OF t, of airports] by simp
next
  assume a: "NL \<notin> set payload \<and> length payload \<le> 77 \<and> tokens payload = ident # port # others \<and>
      list_all isdigit port \<and> ident \<notin> name ` set airports \<and>
      length airports < maxAirports"
  then have t: "tokens payload = ident # port # others" by simp
  have "NL \<notin> set (CHR ''!'' # payload)" and "length (CHR ''!'' # payload) \<le> 78"
    using a by simp_all
  then have "fgets (MAX_CHARS + 1) ((CHR ''!'' # payload) @ NL # stream)
        = Some ((CHR ''!'' # payload) @ [NL], stream)"
    by (rule fgets_line)
  then show "fgets (MAX_CHARS + 1) (CHR ''!'' # payload @ NL # stream)
        = Some (CHR ''!'' # payload @ [NL], stream)"
    by simp
  have ins: "insert_airport \<lparr>name = ident, portNumber = port\<rparr> airports
      = Inr (takeWhile (\<lambda>b. name b \<le> ident) airports
               @ \<lparr>name = ident, portNumber = port\<rparr> # dropWhile (\<lambda>b. name b \<le> ident) airports)"
    using a by (simp add: insert_airport_closed_form)
  have "add_airport payload airports
        = Inr (takeWhile (\<lambda>b. name b \<le> ident) airports
                 @ \<lparr>name = ident, portNumber = port\<rparr>
                 # dropWhile (\<lambda>b. name b \<le> ident) airports)"
    using add_airport_tokens [OF t, of airports] a ins by simp
  then show "mapper_step (CHR ''!'' # payload @ [NL]) airports
        = Inr (takeWhile (\<lambda>b. name b \<le> ident) airports
                 @ \<lparr>name = ident, portNumber = port\<rparr>
                 # dropWhile (\<lambda>b. name b \<le> ident) airports,
               [TakeLock, RegistryOp, ReleaseLock])"
    using mapper_step_registration [OF t, of airports] by simp
next
  assume "spec_registration_wellformed payload"
  then show "\<exists>ident port. tokens payload = [ident, port] \<and> list_all isdigit port"
    by (rule spec_wellformed_tokens)
qed

theorem registration_acceptance_witness:
  "(NL \<notin> set ''onlyid'' \<and> length ''onlyid'' \<le> 77 \<and> tokens ''onlyid'' = ''onlyid'' # [] \<and>
      ([] = [] \<or> \<not> list_all isdigit (hd []) \<or> ''onlyid'' \<in> name ` set [\<lparr>name = ''BNE'', portNumber = ''8001''\<rparr>])) \<and>
   (fgets (MAX_CHARS + 1) (CHR ''!'' # ''onlyid'' @ NL # (''@'' @ [NL]))
        = Some (CHR ''!'' # ''onlyid'' @ [NL], (''@'' @ [NL])) \<and>
      mapper_step (CHR ''!'' # ''onlyid'' @ [NL]) [\<lparr>name = ''BNE'', portNumber = ''8001''\<rparr>]
        = Inr ([\<lparr>name = ''BNE'', portNumber = ''8001''\<rparr>], [TakeLock, RegistryOp, ReleaseLock])) \<and>
   (NL \<notin> set ''id:abc'' \<and> length ''id:abc'' \<le> 77 \<and> tokens ''id:abc'' = ''id'' # [''abc''] \<and>
      ([''abc''] = [] \<or> \<not> list_all isdigit (hd [''abc'']) \<or> ''id'' \<in> name ` set [\<lparr>name = ''BNE'', portNumber = ''8001''\<rparr>])) \<and>
   (fgets (MAX_CHARS + 1) (CHR ''!'' # ''id:abc'' @ NL # (''@'' @ [NL]))
        = Some (CHR ''!'' # ''id:abc'' @ [NL], (''@'' @ [NL])) \<and>
      mapper_step (CHR ''!'' # ''id:abc'' @ [NL]) [\<lparr>name = ''BNE'', portNumber = ''8001''\<rparr>]
        = Inr ([\<lparr>name = ''BNE'', portNumber = ''8001''\<rparr>], [TakeLock, RegistryOp, ReleaseLock])) \<and>
   (NL \<notin> set ''BNE:9999'' \<and> length ''BNE:9999'' \<le> 77 \<and> tokens ''BNE:9999'' = ''BNE'' # [''9999''] \<and>
      ([''9999''] = [] \<or> \<not> list_all isdigit (hd [''9999'']) \<or> ''BNE'' \<in> name ` set [\<lparr>name = ''BNE'', portNumber = ''8001''\<rparr>])) \<and>
   (fgets (MAX_CHARS + 1) (CHR ''!'' # ''BNE:9999'' @ NL # (''@'' @ [NL]))
        = Some (CHR ''!'' # ''BNE:9999'' @ [NL], (''@'' @ [NL])) \<and>
      mapper_step (CHR ''!'' # ''BNE:9999'' @ [NL]) [\<lparr>name = ''BNE'', portNumber = ''8001''\<rparr>]
        = Inr ([\<lparr>name = ''BNE'', portNumber = ''8001''\<rparr>], [TakeLock, RegistryOp, ReleaseLock])) \<and>
   (NL \<notin> set ''ADL:8002'' \<and> length ''ADL:8002'' \<le> 77 \<and> tokens ''ADL:8002'' = ''ADL'' # ''8002'' # [] \<and>
      list_all isdigit ''8002'' \<and> ''ADL'' \<notin> name ` set [\<lparr>name = ''BNE'', portNumber = ''8001''\<rparr>] \<and>
      length [\<lparr>name = ''BNE'', portNumber = ''8001''\<rparr>] < maxAirports) \<and>
   (fgets (MAX_CHARS + 1) (CHR ''!'' # ''ADL:8002'' @ NL # (''@'' @ [NL]))
        = Some (CHR ''!'' # ''ADL:8002'' @ [NL], (''@'' @ [NL])) \<and>
      mapper_step (CHR ''!'' # ''ADL:8002'' @ [NL]) [\<lparr>name = ''BNE'', portNumber = ''8001''\<rparr>]
        = Inr ([\<lparr>name = ''ADL'', portNumber = ''8002''\<rparr>, \<lparr>name = ''BNE'', portNumber = ''8001''\<rparr>], [TakeLock, RegistryOp, ReleaseLock])) \<and>
   spec_registration_wellformed ''ADL:8002'' \<and>
   (\<exists>ident port. tokens ''ADL:8002'' = [ident, port] \<and> list_all isdigit port)"
proof -
  have c1: "NL \<notin> set ''onlyid'' \<and> length ''onlyid'' \<le> 77 \<and> tokens ''onlyid'' = ''onlyid'' # [] \<and>
      ([] = [] \<or> \<not> list_all isdigit (hd []) \<or> ''onlyid'' \<in> name ` set [\<lparr>name = ''BNE'', portNumber = ''8001''\<rparr>])"
    by (simp add: tokens_def isdigit_def)
  have c2: "fgets (MAX_CHARS + 1) (CHR ''!'' # ''onlyid'' @ NL # (''@'' @ [NL]))
        = Some (CHR ''!'' # ''onlyid'' @ [NL], (''@'' @ [NL])) \<and>
      mapper_step (CHR ''!'' # ''onlyid'' @ [NL]) [\<lparr>name = ''BNE'', portNumber = ''8001''\<rparr>]
        = Inr ([\<lparr>name = ''BNE'', portNumber = ''8001''\<rparr>], [TakeLock, RegistryOp, ReleaseLock])"
    by (rule registration_acceptance [THEN conjunct1, THEN mp, OF c1])
  have c3: "NL \<notin> set ''id:abc'' \<and> length ''id:abc'' \<le> 77 \<and> tokens ''id:abc'' = ''id'' # [''abc''] \<and>
      ([''abc''] = [] \<or> \<not> list_all isdigit (hd [''abc'']) \<or> ''id'' \<in> name ` set [\<lparr>name = ''BNE'', portNumber = ''8001''\<rparr>])"
    by (simp add: tokens_def isdigit_def)
  have c4: "fgets (MAX_CHARS + 1) (CHR ''!'' # ''id:abc'' @ NL # (''@'' @ [NL]))
        = Some (CHR ''!'' # ''id:abc'' @ [NL], (''@'' @ [NL])) \<and>
      mapper_step (CHR ''!'' # ''id:abc'' @ [NL]) [\<lparr>name = ''BNE'', portNumber = ''8001''\<rparr>]
        = Inr ([\<lparr>name = ''BNE'', portNumber = ''8001''\<rparr>], [TakeLock, RegistryOp, ReleaseLock])"
    by (rule registration_acceptance [THEN conjunct1, THEN mp, OF c3])
  have c5: "NL \<notin> set ''BNE:9999'' \<and> length ''BNE:9999'' \<le> 77 \<and> tokens ''BNE:9999'' = ''BNE'' # [''9999''] \<and>
      ([''9999''] = [] \<or> \<not> list_all isdigit (hd [''9999'']) \<or> ''BNE'' \<in> name ` set [\<lparr>name = ''BNE'', portNumber = ''8001''\<rparr>])"
    by (simp add: tokens_def isdigit_def)
  have c6: "fgets (MAX_CHARS + 1) (CHR ''!'' # ''BNE:9999'' @ NL # (''@'' @ [NL]))
        = Some (CHR ''!'' # ''BNE:9999'' @ [NL], (''@'' @ [NL])) \<and>
      mapper_step (CHR ''!'' # ''BNE:9999'' @ [NL]) [\<lparr>name = ''BNE'', portNumber = ''8001''\<rparr>]
        = Inr ([\<lparr>name = ''BNE'', portNumber = ''8001''\<rparr>], [TakeLock, RegistryOp, ReleaseLock])"
    by (rule registration_acceptance [THEN conjunct1, THEN mp, OF c5])
  have c7: "NL \<notin> set ''ADL:8002'' \<and> length ''ADL:8002'' \<le> 77 \<and> tokens ''ADL:8002'' = ''ADL'' # ''8002'' # [] \<and>
      list_all isdigit ''8002'' \<and> ''ADL'' \<notin> name ` set [\<lparr>name = ''BNE'', portNumber = ''8001''\<rparr>] \<and>
      length [\<lparr>name = ''BNE'', portNumber = ''8001''\<rparr>] < maxAirports"
    by (simp add: tokens_def isdigit_def maxAirports_def)
  have c8: "fgets (MAX_CHARS + 1) (CHR ''!'' # ''ADL:8002'' @ NL # (''@'' @ [NL]))
        = Some (CHR ''!'' # ''ADL:8002'' @ [NL], (''@'' @ [NL])) \<and>
      mapper_step (CHR ''!'' # ''ADL:8002'' @ [NL]) [\<lparr>name = ''BNE'', portNumber = ''8001''\<rparr>]
        = Inr ([\<lparr>name = ''ADL'', portNumber = ''8002''\<rparr>, \<lparr>name = ''BNE'', portNumber = ''8001''\<rparr>], [TakeLock, RegistryOp, ReleaseLock])"
    using registration_acceptance [THEN conjunct2, THEN conjunct1, THEN mp, OF c7] by simp
  have c9: "spec_registration_wellformed ''ADL:8002''"
    by (simp add: spec_registration_wellformed_def spec_port_valid_def decimal_value_def
        isdigit_def)
  have c10: "\<exists>ident port. tokens ''ADL:8002'' = [ident, port] \<and> list_all isdigit port"
    by (rule registration_acceptance [THEN conjunct2, THEN conjunct2, THEN mp, OF c9])
  show ?thesis
    by (rule conjI [OF c1 conjI [OF c2 conjI [OF c3 conjI [OF c4 conjI [OF c5 conjI [OF c6 conjI [OF c7 conjI [OF c8 conjI [OF c9 c10]]]]]]]]])
qed

section \<open>Lines that break the framing rules (C4)\<close>




section \<open>Duplicate registrations (C5)\<close>

text \<open>
  C5. In every reachable registry of the mapper no two entries have the same key. A
  registration whose id is the key of an entry already present changes nothing at all.
  When an id not yet present is registered with a port and then registered again with
  any other port, the second registration changes nothing and a lookup of the id is
  answered with the port registered first.
\<close>

theorem directory_keeps_first_registration:
  "mapper_reachable airports \<Longrightarrow>
     distinct (map name airports) \<and>
     (\<forall>payload ident others.
        tokens payload = ident # others \<and> ident \<in> name ` set airports \<longrightarrow>
        mapper_step (CHR ''!'' # payload @ [NL]) airports
          = Inr (airports, [TakeLock, RegistryOp, ReleaseLock])) \<and>
     (\<forall>ident port1 port2.
        ident \<noteq> [] \<and> CHR '':'' \<notin> set ident \<and> ident \<notin> name ` set airports \<and>
        port1 \<noteq> [] \<and> list_all isdigit port1 \<and> length airports < maxAirports \<longrightarrow>
        (\<exists>registered.
           mapper_step (CHR ''!'' # ident @ '':'' @ port1 @ [NL]) airports
             = Inr (registered, [TakeLock, RegistryOp, ReleaseLock]) \<and>
           registered \<noteq> airports \<and>
           mapper_step (CHR ''!'' # ident @ '':'' @ port2 @ [NL]) registered
             = Inr (registered, [TakeLock, RegistryOp, ReleaseLock]) \<and>
           mapper_step (CHR ''?'' # ident @ [NL]) registered
             = Inr (registered, [TakeLock, RegistryOp, Write (port1 @ [NL]), Flush, ReleaseLock])))"
proof (intro conjI allI impI)
  assume "mapper_reachable airports"
  then show "distinct (map name airports)" by (simp add: mapper_reachable_invariant)
next
  fix payload ident others
  assume a: "tokens payload = ident # others \<and> ident \<in> name ` set airports"
  then have t: "tokens payload = ident # others" and p: "ident \<in> name ` set airports" by simp_all
  have "add_airport payload airports = Inr airports"
    using add_airport_tokens [OF t, of airports] p by simp
  then show "mapper_step (CHR ''!'' # payload @ [NL]) airports
          = Inr (airports, [TakeLock, RegistryOp, ReleaseLock])"
    using mapper_step_registration [OF t, of airports] by simp
next
  fix ident port1 port2
  assume a: "ident \<noteq> [] \<and> CHR '':'' \<notin> set ident \<and> ident \<notin> name ` set airports \<and>
        port1 \<noteq> [] \<and> list_all isdigit port1 \<and> length airports < maxAirports"
  let ?a = "\<lparr>name = ident, portNumber = port1\<rparr>"
  let ?reg = "takeWhile (\<lambda>b. name b \<le> name ?a) airports @ ?a # dropWhile (\<lambda>b. name b \<le> name ?a) airports"
  have nc: "CHR '':'' \<notin> set port1" using a by (simp add: digits_no_colon)
  have t1: "tokens (ident @ '':'' @ port1) = [ident, port1]"
    using a nc tokens_ident_colon [of ident port1] tokens_single [of port1] by simp
  have t2: "tokens (ident @ '':'' @ port2) = ident # tokens port2"
    using a tokens_ident_colon [of ident port2] by simp
  have ins: "insert_airport ?a airports = Inr ?reg"
    using a by (simp add: insert_airport_closed_form)
  have "add_airport (ident @ '':'' @ port1) airports = Inr ?reg"
    using add_airport_tokens [OF t1, of airports] a ins by simp
  then have s1: "mapper_step (CHR ''!'' # ident @ '':'' @ port1 @ [NL]) airports
             = Inr (?reg, [TakeLock, RegistryOp, ReleaseLock])"
    using mapper_step_registration [OF t1, of airports] by simp
  have len: "length ?reg = Suc (length airports)" by (rule length_insert_position)
  have ne: "?reg \<noteq> airports"
  proof
    assume e: "?reg = airports"
    have "length ?reg = length airports" by (simp only: e)
    with len show False by simp
  qed
  have "ident \<in> name ` set ?reg" by (simp del: takeWhile_dropWhile_id)
  then have "add_airport (ident @ '':'' @ port2) ?reg = Inr ?reg"
    using add_airport_tokens [OF t2, of ?reg] by simp
  then have s2: "mapper_step (CHR ''!'' # ident @ '':'' @ port2 @ [NL]) ?reg
             = Inr (?reg, [TakeLock, RegistryOp, ReleaseLock])"
    using mapper_step_registration [OF t2, of ?reg] by simp
  have "List.find (\<lambda>b. name b = ident) ?reg = Some ?a"
    using a by (intro find_inserted) simp_all
  then have s3: "mapper_step (CHR ''?'' # ident @ [NL]) ?reg
             = Inr (?reg, [TakeLock, RegistryOp, Write (port1 @ [NL]), Flush, ReleaseLock])"
    using a mapper_step_lookup [of ident ?reg] by simp
  show "\<exists>registered.
           mapper_step (CHR ''!'' # ident @ '':'' @ port1 @ [NL]) airports
             = Inr (registered, [TakeLock, RegistryOp, ReleaseLock]) \<and>
           registered \<noteq> airports \<and>
           mapper_step (CHR ''!'' # ident @ '':'' @ port2 @ [NL]) registered
             = Inr (registered, [TakeLock, RegistryOp, ReleaseLock]) \<and>
           mapper_step (CHR ''?'' # ident @ [NL]) registered
             = Inr (registered, [TakeLock, RegistryOp, Write (port1 @ [NL]), Flush, ReleaseLock])"
    using s1 ne s2 s3 by (intro exI [of _ ?reg] conjI)
qed

theorem directory_keeps_first_registration_witness:
  "mapper_reachable [\<lparr>name = ''BNE'', portNumber = ''8001''\<rparr>] \<and>
   distinct (map name [\<lparr>name = ''BNE'', portNumber = ''8001''\<rparr>]) \<and>
   (tokens ''BNE:9999'' = ''BNE'' # [''9999''] \<and> ''BNE'' \<in> name ` set [\<lparr>name = ''BNE'', portNumber = ''8001''\<rparr>]) \<and>
   mapper_step (CHR ''!'' # ''BNE:9999'' @ [NL]) [\<lparr>name = ''BNE'', portNumber = ''8001''\<rparr>]
     = Inr ([\<lparr>name = ''BNE'', portNumber = ''8001''\<rparr>], [TakeLock, RegistryOp, ReleaseLock]) \<and>
   (''ADL'' \<noteq> [] \<and> CHR '':'' \<notin> set ''ADL'' \<and> ''ADL'' \<notin> name ` set [\<lparr>name = ''BNE'', portNumber = ''8001''\<rparr>] \<and>
      ''8002'' \<noteq> [] \<and> list_all isdigit ''8002'' \<and> length [\<lparr>name = ''BNE'', portNumber = ''8001''\<rparr>] < maxAirports) \<and>
   (\<exists>registered.
      mapper_step (CHR ''!'' # ''ADL'' @ '':'' @ ''8002'' @ [NL]) [\<lparr>name = ''BNE'', portNumber = ''8001''\<rparr>]
        = Inr (registered, [TakeLock, RegistryOp, ReleaseLock]) \<and>
      registered \<noteq> [\<lparr>name = ''BNE'', portNumber = ''8001''\<rparr>] \<and>
      mapper_step (CHR ''!'' # ''ADL'' @ '':'' @ ''7777'' @ [NL]) registered
        = Inr (registered, [TakeLock, RegistryOp, ReleaseLock]) \<and>
      mapper_step (CHR ''?'' # ''ADL'' @ [NL]) registered
        = Inr (registered, [TakeLock, RegistryOp, Write (''8002'' @ [NL]), Flush, ReleaseLock]))"
proof -
  have h2: "tokens ''BNE:9999'' = ''BNE'' # [''9999''] \<and> ''BNE'' \<in> name ` set [\<lparr>name = ''BNE'', portNumber = ''8001''\<rparr>]"
    by (simp add: tokens_def)
  have h3: "''ADL'' \<noteq> [] \<and> CHR '':'' \<notin> set ''ADL'' \<and> ''ADL'' \<notin> name ` set [\<lparr>name = ''BNE'', portNumber = ''8001''\<rparr>] \<and>
      ''8002'' \<noteq> [] \<and> list_all isdigit ''8002'' \<and> length [\<lparr>name = ''BNE'', portNumber = ''8001''\<rparr>] < maxAirports"
    by (simp add: isdigit_def maxAirports_def)
  note t = directory_keeps_first_registration [OF reachable_BNE]
  note d = t [THEN conjunct1]
  note r = t [THEN conjunct2, THEN conjunct1, THEN spec, THEN spec, THEN spec, THEN mp, OF h2]
  note q = t [THEN conjunct2, THEN conjunct2, THEN spec, THEN spec, THEN spec, THEN mp, OF h3,
              of "''7777''"]
  show ?thesis
    by (rule conjI [OF reachable_BNE conjI [OF d conjI [OF h2 conjI [OF r conjI [OF h3 q]]]]])
qed

section \<open>Lookup (C6)\<close>

text \<open>
  C6. Whatever the registry holds, the mapper answers a line \<open>?<id>\<close> with a non-empty
  id by one line: the port of the first entry whose key is the id, or a semicolon when
  no entry has that key; the registry is unchanged. In particular, after the
  registration of BNE with port 8001 on an empty registry, \<open>?BNE\<close> is answered with
  8001 and \<open>?XYZ\<close> with a semicolon.
\<close>

theorem lookup_response:
  "(ident \<noteq> [] \<longrightarrow>
      (\<exists>evs. mapper_step (CHR ''?'' # ident @ [NL]) airports = Inr (airports, evs) \<and>
         response evs = (case List.find (\<lambda>a. name a = ident) airports of
                           None \<Rightarrow> '';'' @ [NL] | Some a \<Rightarrow> portNumber a @ [NL]))) \<and>
   (\<exists>registered evs1 evs2 evs3.
      mapper_step (''!BNE:8001'' @ [NL]) [] = Inr (registered, evs1) \<and>
      mapper_step (''?BNE'' @ [NL]) registered = Inr (registered, evs2) \<and>
      response evs2 = ''8001'' @ [NL] \<and>
      mapper_step (''?XYZ'' @ [NL]) registered = Inr (registered, evs3) \<and>
      response evs3 = '';'' @ [NL])"
proof (intro conjI impI)
  assume "ident \<noteq> []"
  then have "mapper_step (CHR ''?'' # ident @ [NL]) airports =
     Inr (airports,
          [TakeLock, RegistryOp,
           Write (case List.find (\<lambda>a. name a = ident) airports of
                    None \<Rightarrow> '';'' @ [NL] | Some a \<Rightarrow> portNumber a @ [NL]),
           Flush, ReleaseLock])"
    by (rule mapper_step_lookup)
  then show "\<exists>evs. mapper_step (CHR ''?'' # ident @ [NL]) airports = Inr (airports, evs) \<and>
         response evs = (case List.find (\<lambda>a. name a = ident) airports of
                           None \<Rightarrow> '';'' @ [NL] | Some a \<Rightarrow> portNumber a @ [NL])"
    by simp
next
  let ?reg = "[\<lparr>name = ''BNE'', portNumber = ''8001''\<rparr>]"
  have b: "mapper_step (''?BNE'' @ [NL]) ?reg =
             Inr (?reg, [TakeLock, RegistryOp, Write (''8001'' @ [NL]), Flush, ReleaseLock])"
    using mapper_step_lookup [of "''BNE''" ?reg] by simp
  have x: "mapper_step (''?XYZ'' @ [NL]) ?reg =
             Inr (?reg, [TakeLock, RegistryOp, Write ('';'' @ [NL]), Flush, ReleaseLock])"
    using mapper_step_lookup [of "''XYZ''" ?reg] by simp
  have "mapper_step (''!BNE:8001'' @ [NL]) [] = Inr (?reg, [TakeLock, RegistryOp, ReleaseLock]) \<and>
      mapper_step (''?BNE'' @ [NL]) ?reg =
        Inr (?reg, [TakeLock, RegistryOp, Write (''8001'' @ [NL]), Flush, ReleaseLock]) \<and>
      response [TakeLock, RegistryOp, Write (''8001'' @ [NL]), Flush, ReleaseLock] = ''8001'' @ [NL] \<and>
      mapper_step (''?XYZ'' @ [NL]) ?reg =
        Inr (?reg, [TakeLock, RegistryOp, Write ('';'' @ [NL]), Flush, ReleaseLock]) \<and>
      response [TakeLock, RegistryOp, Write ('';'' @ [NL]), Flush, ReleaseLock] = '';'' @ [NL]"
    using register_BNE b x by simp
  then show "\<exists>registered evs1 evs2 evs3.
      mapper_step (''!BNE:8001'' @ [NL]) [] = Inr (registered, evs1) \<and>
      mapper_step (''?BNE'' @ [NL]) registered = Inr (registered, evs2) \<and>
      response evs2 = ''8001'' @ [NL] \<and>
      mapper_step (''?XYZ'' @ [NL]) registered = Inr (registered, evs3) \<and>
      response evs3 = '';'' @ [NL]"
    by blast
qed

theorem lookup_response_witness:
  "''ADL'' \<noteq> [] \<and>
   (\<exists>evs. mapper_step (CHR ''?'' # ''ADL'' @ [NL])
             [\<lparr>name = ''ADL'', portNumber = ''8002''\<rparr>, \<lparr>name = ''BNE'', portNumber = ''8001''\<rparr>]
           = Inr ([\<lparr>name = ''ADL'', portNumber = ''8002''\<rparr>, \<lparr>name = ''BNE'', portNumber = ''8001''\<rparr>], evs) \<and>
          response evs = ''8002'' @ [NL])"
proof -
  have h: "''ADL'' \<noteq> []" by simp
  show ?thesis
    using h lookup_response [of "''ADL''"
        "[\<lparr>name = ''ADL'', portNumber = ''8002''\<rparr>, \<lparr>name = ''BNE'', portNumber = ''8001''\<rparr>]"]
    by simp
qed

section \<open>The log command (C7)\<close>

text \<open>
  C7 fails on the code once one \<open>log\<close> has been served. The \<open>log\<close> branch leaves the
  loop by \<open>break\<close> in front of \<open>release_lock\<close>, so that the semaphore keeps the value 0.
  The first \<open>log\<close>, here on a log of two visits registered out of order, is answered
  with the visits in ascending order and the full stop, and the connection is closed. A
  later \<open>log\<close> on another connection of the same control is not answered: its handler
  does not return from \<open>take_lock\<close>, writes nothing and closes nothing.
\<close>

theorem log_after_log_blocks:
  "control_reachable ([''AB123'', ''CD456''], init_lock) \<and>
   control_client_handler ''quarantined'' [''log'' @ [NL]] ([''AB123'', ''CD456''], init_lock)
     = Inr (([''AB123'', ''CD456''], 0),
            Read # [TakeLock, RegistryOp, Write (''AB123'' @ [NL]), Write (''CD456'' @ [NL]),
           Write (''.'' @ [NL]), Flush] @ [Close, Close], Break) \<and>
   response (Read # [TakeLock, RegistryOp, Write (''AB123'' @ [NL]), Write (''CD456'' @ [NL]),
           Write (''.'' @ [NL]), Flush] @ [Close, Close])
     = ''AB123'' @ [NL] @ ''CD456'' @ [NL] @ ''.'' @ [NL] \<and>
   control_reachable ([''AB123'', ''CD456''], 0) \<and>
   control_step ''quarantined'' (''log'' @ [NL]) ([''AB123'', ''CD456''], 0)
     = Inr (([''AB123'', ''CD456''], 0), [], Blocked) \<and>
   control_client_handler ''quarantined'' [''log'' @ [NL]] ([''AB123'', ''CD456''], 0)
     = Inr (([''AB123'', ''CD456''], 0), [Read], Blocked) \<and>
   response [Read] = []"
proof -
  have c1: "control_reachable ([''AB123'', ''CD456''], init_lock)"
    by (rule reachable_AB123_CD456)
  have c2: "control_client_handler ''quarantined'' [''log'' @ [NL]] ([''AB123'', ''CD456''], init_lock)
     = Inr (([''AB123'', ''CD456''], 0),
            Read # [TakeLock, RegistryOp, Write (''AB123'' @ [NL]), Write (''CD456'' @ [NL]),
           Write (''.'' @ [NL]), Flush] @ [Close, Close], Break)"
    by code_simp
  have c3: "response (Read # [TakeLock, RegistryOp, Write (''AB123'' @ [NL]), Write (''CD456'' @ [NL]),
           Write (''.'' @ [NL]), Flush] @ [Close, Close])
     = ''AB123'' @ [NL] @ ''CD456'' @ [NL] @ ''.'' @ [NL]"
    by simp
  have c4: "control_reachable ([''AB123'', ''CD456''], 0)"
    using reachable_AB123_CD456 log_AB123_CD456 by (rule control_iteration)
  have c5: "control_step ''quarantined'' (''log'' @ [NL]) ([''AB123'', ''CD456''], 0)
     = Inr (([''AB123'', ''CD456''], 0), [], Blocked)"
    by code_simp
  have c6: "control_client_handler ''quarantined'' [''log'' @ [NL]] ([''AB123'', ''CD456''], 0)
     = Inr (([''AB123'', ''CD456''], 0), [Read], Blocked)"
    by code_simp
  have c7: "response [Read] = []"
    by simp
  show ?thesis
    by (rule conjI [OF c1 conjI [OF c2 conjI [OF c3 conjI [OF c4 conjI [OF c5 conjI [OF c6 c7]]]]]])
qed

section \<open>Enumeration (C8)\<close>

text \<open>
  C8. In every reachable registry of the mapper, the line consisting of the single
  character \<open>@\<close> is answered with exactly the registered entries, one line
  \<open><id>:<port>\<close> each and nothing behind them, and the entries are in non-decreasing
  lexicographic order of their keys; a line that neither begins with \<open>?\<close> or \<open>!\<close> nor
  is \<open>@\<close> gets no answer and leaves the registry as it is.
\<close>

theorem enumeration_response:
  "mapper_reachable airports \<Longrightarrow>
     (\<exists>evs. mapper_step (''@'' @ [NL]) airports = Inr (airports, evs) \<and>
        response evs = concat (map (\<lambda>a. name a @ '':'' @ portNumber a @ [NL]) airports)) \<and>
     sorted (map name airports) \<and>
     (\<forall>m. first_char m \<noteq> CHR ''?'' \<and> first_char m \<noteq> CHR ''!'' \<and> m \<noteq> ''@'' \<longrightarrow>
        (\<exists>evs. mapper_step (m @ [NL]) airports = Inr (airports, evs) \<and> response evs = []))"
proof (intro conjI allI impI)
  have "response ([TakeLock, RegistryOp]
            @ map (\<lambda>a. Write (name a @ '':'' @ portNumber a @ [NL])) airports
            @ [Flush, ReleaseLock])
        = concat (map (\<lambda>a. name a @ '':'' @ portNumber a @ [NL]) airports)"
    by (simp add: response_append response_map_Write)
  then show "\<exists>evs. mapper_step (''@'' @ [NL]) airports = Inr (airports, evs) \<and>
        response evs = concat (map (\<lambda>a. name a @ '':'' @ portNumber a @ [NL]) airports)"
    using mapper_step_enumeration [of airports] by blast
next
  assume "mapper_reachable airports"
  then show "sorted (map name airports)" by (simp add: mapper_reachable_invariant)
next
  fix m
  assume "first_char m \<noteq> CHR ''?'' \<and> first_char m \<noteq> CHR ''!'' \<and> m \<noteq> ''@''"
  then have "mapper_step (m @ [NL]) airports = Inr (airports, [TakeLock, ReleaseLock])"
    by (simp add: mapper_step_unrecognised)
  then show "\<exists>evs. mapper_step (m @ [NL]) airports = Inr (airports, evs) \<and> response evs = []"
    by simp
qed

theorem enumeration_response_witness:
  "mapper_reachable [\<lparr>name = ''ADL'', portNumber = ''8002''\<rparr>, \<lparr>name = ''BNE'', portNumber = ''8001''\<rparr>] \<and>
   (\<exists>evs. mapper_step (''@'' @ [NL]) [\<lparr>name = ''ADL'', portNumber = ''8002''\<rparr>, \<lparr>name = ''BNE'', portNumber = ''8001''\<rparr>]
            = Inr ([\<lparr>name = ''ADL'', portNumber = ''8002''\<rparr>, \<lparr>name = ''BNE'', portNumber = ''8001''\<rparr>], evs) \<and>
          response evs = ''ADL:8002'' @ [NL] @ ''BNE:8001'' @ [NL]) \<and>
   sorted (map name [\<lparr>name = ''ADL'', portNumber = ''8002''\<rparr>, \<lparr>name = ''BNE'', portNumber = ''8001''\<rparr>]) \<and>
   map name [\<lparr>name = ''ADL'', portNumber = ''8002''\<rparr>, \<lparr>name = ''BNE'', portNumber = ''8001''\<rparr>] = [''ADL'', ''BNE''] \<and>
   (first_char ''hello'' \<noteq> CHR ''?'' \<and> first_char ''hello'' \<noteq> CHR ''!'' \<and> ''hello'' \<noteq> ''@'') \<and>
   (\<exists>evs. mapper_step (''hello'' @ [NL]) [\<lparr>name = ''ADL'', portNumber = ''8002''\<rparr>, \<lparr>name = ''BNE'', portNumber = ''8001''\<rparr>]
            = Inr ([\<lparr>name = ''ADL'', portNumber = ''8002''\<rparr>, \<lparr>name = ''BNE'', portNumber = ''8001''\<rparr>], evs) \<and>
          response evs = [])"
proof -
  note t = enumeration_response [OF reachable_ADL_BNE]
  have h: "first_char ''hello'' \<noteq> CHR ''?'' \<and> first_char ''hello'' \<noteq> CHR ''!'' \<and> ''hello'' \<noteq> ''@''"
    by (simp add: first_char_def)
  have c1: "mapper_reachable [\<lparr>name = ''ADL'', portNumber = ''8002''\<rparr>, \<lparr>name = ''BNE'', portNumber = ''8001''\<rparr>]"
    by (rule reachable_ADL_BNE)
  have c2: "\<exists>evs. mapper_step (''@'' @ [NL]) [\<lparr>name = ''ADL'', portNumber = ''8002''\<rparr>, \<lparr>name = ''BNE'', portNumber = ''8001''\<rparr>]
            = Inr ([\<lparr>name = ''ADL'', portNumber = ''8002''\<rparr>, \<lparr>name = ''BNE'', portNumber = ''8001''\<rparr>], evs) \<and>
          response evs = ''ADL:8002'' @ [NL] @ ''BNE:8001'' @ [NL]"
    using t [THEN conjunct1] by simp
  have c3: "sorted (map name [\<lparr>name = ''ADL'', portNumber = ''8002''\<rparr>, \<lparr>name = ''BNE'', portNumber = ''8001''\<rparr>])"
    by (rule t [THEN conjunct2, THEN conjunct1])
  have c4: "map name [\<lparr>name = ''ADL'', portNumber = ''8002''\<rparr>, \<lparr>name = ''BNE'', portNumber = ''8001''\<rparr>] = [''ADL'', ''BNE'']"
    by simp
  have c5: "first_char ''hello'' \<noteq> CHR ''?'' \<and> first_char ''hello'' \<noteq> CHR ''!'' \<and> ''hello'' \<noteq> ''@''"
    by (rule h)
  have c6: "\<exists>evs. mapper_step (''hello'' @ [NL]) [\<lparr>name = ''ADL'', portNumber = ''8002''\<rparr>, \<lparr>name = ''BNE'', portNumber = ''8001''\<rparr>]
            = Inr ([\<lparr>name = ''ADL'', portNumber = ''8002''\<rparr>, \<lparr>name = ''BNE'', portNumber = ''8001''\<rparr>], evs) \<and>
          response evs = []"
    by (rule t [THEN conjunct2, THEN conjunct2, THEN spec, THEN mp, OF h])
  show ?thesis
    by (rule conjI [OF c1 conjI [OF c2 conjI [OF c3 conjI [OF c4 conjI [OF c5 c6]]]]])
qed

section \<open>The accept loop (C9)\<close>

text \<open>
  C9. The accept loop of the control and that of the mapper call \<open>accept\<close> at most 1000
  times; every call among them that returns a descriptor gets a handler thread, with no
  regard to the handlers already running, so at most 1000 connections are admitted over
  the life of the process and nothing else limits their number.
\<close>

theorem accept_bound:
  "accept_clients maxPlanes accepts = filter (\<lambda>fd. 0 \<le> fd) (take 1000 accepts) \<and>
   mapper_accept accepts = filter (\<lambda>fd. 0 \<le> fd) (take 1000 accepts) \<and>
   length (accept_clients maxPlanes accepts) \<le> 1000 \<and>
   length (mapper_accept accepts) \<le> 1000"
proof -
  have c: "accept_clients maxPlanes accepts = filter (\<lambda>fd. 0 \<le> fd) (take 1000 accepts)"
    by (simp add: accept_clients_def accept_loop_eq maxPlanes_def)
  have m: "mapper_accept accepts = filter (\<lambda>fd. 0 \<le> fd) (take 1000 accepts)"
    by (simp add: mapper_accept_def accept_loop_eq maxAirports_def)
  have "length (filter (\<lambda>fd. 0 \<le> fd) (take 1000 accepts)) \<le> length (take 1000 accepts)"
    by (rule length_filter_le)
  then have l: "length (filter (\<lambda>fd. 0 \<le> fd) (take 1000 accepts)) \<le> 1000" by simp
  show ?thesis using c m l by simp
qed

section \<open>Frame (C10)\<close>

text \<open>
  C10. An iteration of the mapper's handler on a line that is not a registration (so on
  every lookup \<open>?<id>\<close> and on the enumeration \<open>@\<close>) and the control's \<open>log\<close> leave the
  registry exactly as it was. Any iteration, of the mapper or of the control, either
  leaves the registry as it was or puts one new entry in at some position: the entries
  in front of and behind that position are the former entries, unchanged and in their
  former order, and the size grows by exactly one.
\<close>

theorem registry_frame:
  "(mapper_step raw airports = Inr (airports', evs) \<longrightarrow>
      (first_char (butlast raw) \<noteq> CHR ''!'' \<longrightarrow> airports' = airports) \<and>
      (airports' = airports \<or>
       (\<exists>idx a. idx \<le> length airports \<and> airports' = take idx airports @ a # drop idx airports \<and>
          length airports' = Suc (length airports)))) \<and>
   (control_step info line (planes, lock) = Inr ((planes', lock'), evs', st) \<longrightarrow>
      (line = ''log'' @ [NL] \<longrightarrow> planes' = planes) \<and>
      (planes' = planes \<or>
       (\<exists>idx. idx \<le> length planes \<and> planes' = take idx planes @ butlast line # drop idx planes \<and>
          length planes' = Suc (length planes))))"
proof (intro conjI impI)
  assume m: "mapper_step raw airports = Inr (airports', evs)"
  note r = mapper_step_result [OF m]
  {
    assume "first_char (butlast raw) \<noteq> CHR ''!''"
    with r show "airports' = airports" by blast
  }
  show "airports' = airports \<or>
       (\<exists>idx a. idx \<le> length airports \<and> airports' = take idx airports @ a # drop idx airports \<and>
          length airports' = Suc (length airports))"
  proof (cases "airports' = airports")
    case True
    then show ?thesis by simp
  next
    case False
    with r obtain a where
      e: "airports' = takeWhile (\<lambda>b. name b \<le> name a) airports @ a # dropWhile (\<lambda>b. name b \<le> name a) airports"
      by blast
    let ?idx = "length (takeWhile (\<lambda>b. name b \<le> name a) airports)"
    have "?idx \<le> length airports" by (rule length_takeWhile_le)
    moreover have "airports' = take ?idx airports @ a # drop ?idx airports"
      unfolding e by (simp flip: takeWhile_eq_take dropWhile_eq_drop)
    moreover have "length airports' = Suc (length airports)"
      unfolding e by (rule length_insert_position)
    ultimately show ?thesis by blast
  qed
next
  assume c: "control_step info line (planes, lock) = Inr ((planes', lock'), evs', st)"
  note k = control_step_cases [OF c]
  {
    assume l: "line = ''log'' @ [NL]"
    have "verify_message line" and "butlast line = ''log''"
      unfolding l by (simp_all add: verify_message_def)
    with k show "planes' = planes" by auto
  }
  show "planes' = planes \<or>
       (\<exists>idx. idx \<le> length planes \<and> planes' = take idx planes @ butlast line # drop idx planes \<and>
          length planes' = Suc (length planes))"
  proof (cases "planes' = planes")
    case True
    then show ?thesis by simp
  next
    case False
    with control_step_planes [OF c] have
      e: "planes' = takeWhile (\<lambda>p. p \<le> butlast line) planes @ butlast line
                      # dropWhile (\<lambda>p. p \<le> butlast line) planes"
      by blast
    let ?idx = "length (takeWhile (\<lambda>p. p \<le> butlast line) planes)"
    have "?idx \<le> length planes" by (rule length_takeWhile_le)
    moreover have "planes' = take ?idx planes @ butlast line # drop ?idx planes"
      unfolding e by (simp flip: takeWhile_eq_take dropWhile_eq_drop)
    moreover have "length planes' = Suc (length planes)"
      unfolding e by (rule length_insert_position)
    ultimately show ?thesis by blast
  qed
qed

theorem registry_frame_witness:
  "mapper_step (''!ADL:8002'' @ [NL]) [\<lparr>name = ''BNE'', portNumber = ''8001''\<rparr>]
     = Inr ([\<lparr>name = ''ADL'', portNumber = ''8002''\<rparr>, \<lparr>name = ''BNE'', portNumber = ''8001''\<rparr>], [TakeLock, RegistryOp, ReleaseLock]) \<and>
   ([\<lparr>name = ''ADL'', portNumber = ''8002''\<rparr>, \<lparr>name = ''BNE'', portNumber = ''8001''\<rparr>] = [\<lparr>name = ''BNE'', portNumber = ''8001''\<rparr>] \<or>
    (\<exists>idx a. idx \<le> length [\<lparr>name = ''BNE'', portNumber = ''8001''\<rparr>] \<and>
       [\<lparr>name = ''ADL'', portNumber = ''8002''\<rparr>, \<lparr>name = ''BNE'', portNumber = ''8001''\<rparr>] = take idx [\<lparr>name = ''BNE'', portNumber = ''8001''\<rparr>] @ a # drop idx [\<lparr>name = ''BNE'', portNumber = ''8001''\<rparr>] \<and>
       length [\<lparr>name = ''ADL'', portNumber = ''8002''\<rparr>, \<lparr>name = ''BNE'', portNumber = ''8001''\<rparr>] = Suc (length [\<lparr>name = ''BNE'', portNumber = ''8001''\<rparr>]))) \<and>
   [\<lparr>name = ''ADL'', portNumber = ''8002''\<rparr>, \<lparr>name = ''BNE'', portNumber = ''8001''\<rparr>] = take 0 [\<lparr>name = ''BNE'', portNumber = ''8001''\<rparr>] @ \<lparr>name = ''ADL'', portNumber = ''8002''\<rparr> # drop 0 [\<lparr>name = ''BNE'', portNumber = ''8001''\<rparr>] \<and>
   mapper_step (''?BNE'' @ [NL]) [\<lparr>name = ''ADL'', portNumber = ''8002''\<rparr>, \<lparr>name = ''BNE'', portNumber = ''8001''\<rparr>]
     = Inr ([\<lparr>name = ''ADL'', portNumber = ''8002''\<rparr>, \<lparr>name = ''BNE'', portNumber = ''8001''\<rparr>],
            [TakeLock, RegistryOp, Write (''8001'' @ [NL]), Flush, ReleaseLock]) \<and>
   first_char (butlast (''?BNE'' @ [NL])) \<noteq> CHR ''!'' \<and>
   [\<lparr>name = ''ADL'', portNumber = ''8002''\<rparr>, \<lparr>name = ''BNE'', portNumber = ''8001''\<rparr>] = [\<lparr>name = ''ADL'', portNumber = ''8002''\<rparr>, \<lparr>name = ''BNE'', portNumber = ''8001''\<rparr>] \<and>
   mapper_step (''@'' @ [NL]) [\<lparr>name = ''ADL'', portNumber = ''8002''\<rparr>, \<lparr>name = ''BNE'', portNumber = ''8001''\<rparr>]
     = Inr ([\<lparr>name = ''ADL'', portNumber = ''8002''\<rparr>, \<lparr>name = ''BNE'', portNumber = ''8001''\<rparr>],
          [TakeLock, RegistryOp, Write (''ADL:8002'' @ [NL]), Write (''BNE:8001'' @ [NL]),
           Flush, ReleaseLock]) \<and>
   first_char (butlast (''@'' @ [NL])) \<noteq> CHR ''!'' \<and>
   ([\<lparr>name = ''ADL'', portNumber = ''8002''\<rparr>, \<lparr>name = ''BNE'', portNumber = ''8001''\<rparr>] :: Airport list) = [\<lparr>name = ''ADL'', portNumber = ''8002''\<rparr>, \<lparr>name = ''BNE'', portNumber = ''8001''\<rparr>] \<and>
   control_step ''quarantined'' (''AB123'' @ [NL]) ([''CD456''], init_lock)
     = Inr (([''AB123'', ''CD456''], init_lock),
            [TakeLock, Write (''quarantined'' @ [NL]), Flush, RegistryOp, ReleaseLock], Continue) \<and>
   ([''AB123'', ''CD456''] = [''CD456''] \<or>
    (\<exists>idx. idx \<le> length [''CD456''] \<and>
       [''AB123'', ''CD456''] = take idx [''CD456''] @ butlast (''AB123'' @ [NL]) # drop idx [''CD456''] \<and>
       length [''AB123'', ''CD456''] = Suc (length [''CD456'']))) \<and>
   [''AB123'', ''CD456''] = take 0 [''CD456''] @ butlast (''AB123'' @ [NL]) # drop 0 [''CD456''] \<and>
   control_step ''quarantined'' (''log'' @ [NL]) ([''AB123'', ''CD456''], init_lock)
     = Inr (([''AB123'', ''CD456''], 0),
          [TakeLock, RegistryOp, Write (''AB123'' @ [NL]), Write (''CD456'' @ [NL]),
           Write (''.'' @ [NL]), Flush], Break) \<and>
   ([''AB123'', ''CD456''] :: string list) = [''AB123'', ''CD456'']"
proof -
  have c1: "mapper_step (''!ADL:8002'' @ [NL]) [\<lparr>name = ''BNE'', portNumber = ''8001''\<rparr>]
     = Inr ([\<lparr>name = ''ADL'', portNumber = ''8002''\<rparr>, \<lparr>name = ''BNE'', portNumber = ''8001''\<rparr>], [TakeLock, RegistryOp, ReleaseLock])"
    by (rule register_ADL)
  have c2: "[\<lparr>name = ''ADL'', portNumber = ''8002''\<rparr>, \<lparr>name = ''BNE'', portNumber = ''8001''\<rparr>] = [\<lparr>name = ''BNE'', portNumber = ''8001''\<rparr>] \<or>
    (\<exists>idx a. idx \<le> length [\<lparr>name = ''BNE'', portNumber = ''8001''\<rparr>] \<and>
       [\<lparr>name = ''ADL'', portNumber = ''8002''\<rparr>, \<lparr>name = ''BNE'', portNumber = ''8001''\<rparr>] = take idx [\<lparr>name = ''BNE'', portNumber = ''8001''\<rparr>] @ a # drop idx [\<lparr>name = ''BNE'', portNumber = ''8001''\<rparr>] \<and>
       length [\<lparr>name = ''ADL'', portNumber = ''8002''\<rparr>, \<lparr>name = ''BNE'', portNumber = ''8001''\<rparr>] = Suc (length [\<lparr>name = ''BNE'', portNumber = ''8001''\<rparr>]))"
    by (rule registry_frame [THEN conjunct1, THEN mp, OF c1, THEN conjunct2])
  have c3: "[\<lparr>name = ''ADL'', portNumber = ''8002''\<rparr>, \<lparr>name = ''BNE'', portNumber = ''8001''\<rparr>] = take 0 [\<lparr>name = ''BNE'', portNumber = ''8001''\<rparr>] @ \<lparr>name = ''ADL'', portNumber = ''8002''\<rparr> # drop 0 [\<lparr>name = ''BNE'', portNumber = ''8001''\<rparr>]"
    by simp
  have c4: "mapper_step (''?BNE'' @ [NL]) [\<lparr>name = ''ADL'', portNumber = ''8002''\<rparr>, \<lparr>name = ''BNE'', portNumber = ''8001''\<rparr>]
     = Inr ([\<lparr>name = ''ADL'', portNumber = ''8002''\<rparr>, \<lparr>name = ''BNE'', portNumber = ''8001''\<rparr>],
            [TakeLock, RegistryOp, Write (''8001'' @ [NL]), Flush, ReleaseLock])"
    by (rule lookup_BNE_example)
  have c5: "first_char (butlast (''?BNE'' @ [NL])) \<noteq> CHR ''!''"
    by (simp add: first_char_def)
  have c6: "[\<lparr>name = ''ADL'', portNumber = ''8002''\<rparr>, \<lparr>name = ''BNE'', portNumber = ''8001''\<rparr>] = [\<lparr>name = ''ADL'', portNumber = ''8002''\<rparr>, \<lparr>name = ''BNE'', portNumber = ''8001''\<rparr>]"
    by (rule registry_frame [THEN conjunct1, THEN mp, OF c4, THEN conjunct1, THEN mp, OF c5])
  have c7: "mapper_step (''@'' @ [NL]) [\<lparr>name = ''ADL'', portNumber = ''8002''\<rparr>, \<lparr>name = ''BNE'', portNumber = ''8001''\<rparr>]
     = Inr ([\<lparr>name = ''ADL'', portNumber = ''8002''\<rparr>, \<lparr>name = ''BNE'', portNumber = ''8001''\<rparr>],
          [TakeLock, RegistryOp, Write (''ADL:8002'' @ [NL]), Write (''BNE:8001'' @ [NL]),
           Flush, ReleaseLock])"
    by (rule enumeration_example)
  have c8: "first_char (butlast (''@'' @ [NL])) \<noteq> CHR ''!''"
    by (simp add: first_char_def)
  have c9: "([\<lparr>name = ''ADL'', portNumber = ''8002''\<rparr>, \<lparr>name = ''BNE'', portNumber = ''8001''\<rparr>] :: Airport list) = [\<lparr>name = ''ADL'', portNumber = ''8002''\<rparr>, \<lparr>name = ''BNE'', portNumber = ''8001''\<rparr>]"
    by (rule registry_frame [THEN conjunct1, THEN mp, OF c7, THEN conjunct1, THEN mp, OF c8])
  have c10: "control_step ''quarantined'' (''AB123'' @ [NL]) ([''CD456''], init_lock)
     = Inr (([''AB123'', ''CD456''], init_lock),
            [TakeLock, Write (''quarantined'' @ [NL]), Flush, RegistryOp, ReleaseLock], Continue)"
    by (rule visit_AB123)
  have c11: "[''AB123'', ''CD456''] = [''CD456''] \<or>
    (\<exists>idx. idx \<le> length [''CD456''] \<and>
       [''AB123'', ''CD456''] = take idx [''CD456''] @ butlast (''AB123'' @ [NL]) # drop idx [''CD456''] \<and>
       length [''AB123'', ''CD456''] = Suc (length [''CD456'']))"
    by (rule registry_frame [THEN conjunct2, THEN mp, OF c10, THEN conjunct2])
  have c12: "[''AB123'', ''CD456''] = take 0 [''CD456''] @ butlast (''AB123'' @ [NL]) # drop 0 [''CD456'']"
    by simp
  have c13: "control_step ''quarantined'' (''log'' @ [NL]) ([''AB123'', ''CD456''], init_lock)
     = Inr (([''AB123'', ''CD456''], 0),
          [TakeLock, RegistryOp, Write (''AB123'' @ [NL]), Write (''CD456'' @ [NL]),
           Write (''.'' @ [NL]), Flush], Break)"
    by (rule log_AB123_CD456)
  have c14: "([''AB123'', ''CD456''] :: string list) = [''AB123'', ''CD456'']"
    by (rule registry_frame [THEN conjunct2, THEN mp, OF c13, THEN conjunct1, THEN mp, OF refl])
  show ?thesis
    by (rule conjI [OF c1 conjI [OF c2 conjI [OF c3 conjI [OF c4 conjI [OF c5 conjI [OF c6 conjI [OF c7 conjI [OF c8 conjI [OF c9 conjI [OF c10 conjI [OF c11 conjI [OF c12 conjI [OF c13 c14]]]]]]]]]]]]])
qed

end
